theory Spec2Isabelle
  imports Main "HOL-Library.Word" "HOL-Library.Product_Lexorder"
begin

section \<open>The node store\<close>

text \<open>
  A node pointer is an address; address 0 is the null pointer. The nodes of one element
  type live in one store: the live cells, and the pool of addresses that \<open>new\<close> can
  still hand out. \<open>new\<close> takes the first address of the pool and fails (\<open>std::bad_alloc\<close>)
  when the pool is empty; \<open>delete\<close> gives the address back.
\<close>

type_synonym addr = nat

text \<open>
  What stops the process: an \<open>assert\<close> that fails, an access through a null or dangling
  pointer, the overflow of an \<open>int\<close> counter (the last two are undefined behaviour in
  C++). An operation that allocates can also throw \<open>std::bad_alloc\<close>, which propagates as
  an exception with the state it leaves behind.
\<close>

datatype fault = AssertFail | InvalidAccess | IntOverflow

datatype 'st error = Fatal fault | BadAlloc 'st

record 'a element =
  riga :: int
  colonna :: int
  dato :: 'a

record 'a node =
  e :: "'a element"
  next_n :: addr
  prev_n :: addr

record 'a store =
  cells :: "addr \<rightharpoonup> 'a node"
  free :: "addr list"

definition and_then :: "'x + 'a \<Rightarrow> ('a \<Rightarrow> 'x + 'b) \<Rightarrow> 'x + 'b" where
  "and_then x f = (case x of Inl err \<Rightarrow> Inl err | Inr v \<Rightarrow> f v)"

definition fatal :: "(fault + 'r) option \<Rightarrow> ('st error + 'r) option" where
  "fatal x = (case x of None \<Rightarrow> None | Some (Inl f) \<Rightarrow> Some (Inl (Fatal f)) | Some (Inr v) \<Rightarrow> Some (Inr v))"

definition new_node :: "'a node \<Rightarrow> 'a store \<Rightarrow> (addr \<times> 'a store) option" where
  "new_node nd s =
     (case free s of
        [] \<Rightarrow> None
      | a # fs \<Rightarrow> Some (a, s\<lparr>cells := (cells s)(a \<mapsto> nd), free := fs\<rparr>))"

definition delete_node :: "addr \<Rightarrow> 'a store \<Rightarrow> fault + 'a store" where
  "delete_node p s =
     (if p = 0 then Inr s
      else if cells s p = None then Inl InvalidAccess
      else Inr (s\<lparr>cells := (cells s)(p := None), free := p # free s\<rparr>))"

definition deref :: "'a store \<Rightarrow> addr \<Rightarrow> fault + 'a node" where
  "deref s p =
     (if p = 0 then Inl InvalidAccess
      else case cells s p of None \<Rightarrow> Inl InvalidAccess | Some nd \<Rightarrow> Inr nd)"

definition set_next :: "addr \<Rightarrow> addr \<Rightarrow> 'a store \<Rightarrow> fault + 'a store" where
  "set_next p v s =
     and_then (deref s p) (\<lambda>nd. Inr (s\<lparr>cells := (cells s)(p \<mapsto> nd\<lparr>next_n := v\<rparr>)\<rparr>))"

definition set_prev :: "addr \<Rightarrow> addr \<Rightarrow> 'a store \<Rightarrow> fault + 'a store" where
  "set_prev p v s =
     and_then (deref s p) (\<lambda>nd. Inr (s\<lparr>cells := (cells s)(p \<mapsto> nd\<lparr>prev_n := v\<rparr>)\<rparr>))"

definition set_dato :: "addr \<Rightarrow> 'a \<Rightarrow> 'a store \<Rightarrow> fault + 'a store" where
  "set_dato p v s =
     and_then (deref s p)
       (\<lambda>nd. Inr (s\<lparr>cells := (cells s)(p \<mapsto> nd\<lparr>e := (e nd)\<lparr>dato := v\<rparr>\<rparr>)\<rparr>))"


section \<open>The container\<close>

text \<open>
  \<open>size\<close> is an \<open>unsigned int\<close>: a 32-bit word whose increment wraps. Rows, columns and
  positions are \<open>int\<close>s that the class only compares, so they are integers here.
\<close>

record 'a SparseMatrix =
  head :: addr
  righe :: int
  colonne :: int
  size_m :: "32 word"
  D :: 'a

type_synonym 'a state = "'a SparseMatrix \<times> 'a store"

definition SparseMatrix_ctor :: "int \<Rightarrow> int \<Rightarrow> 'a \<Rightarrow> fault + 'a SparseMatrix" where
  "SparseMatrix_ctor r c d =
     (if \<not> r > 0 then Inl AssertFail
      else if \<not> c > 0 then Inl AssertFail
      else Inr \<lparr>head = 0, righe = r, colonne = c, size_m = 0, D = d\<rparr>)"

definition get_size :: "'a SparseMatrix \<Rightarrow> 32 word" where
  "get_size m = size_m m"

definition get_righe :: "'a SparseMatrix \<Rightarrow> int" where
  "get_righe m = righe m"

definition get_colonne :: "'a SparseMatrix \<Rightarrow> int" where
  "get_colonne m = colonne m"

definition get_default :: "'a SparseMatrix \<Rightarrow> 'a" where
  "get_default m = D m"

definition set_default :: "'a SparseMatrix \<Rightarrow> 'a \<Rightarrow> 'a SparseMatrix" where
  "set_default m val = m\<lparr>D := val\<rparr>"

subsection \<open>clear and the destructor\<close>

partial_function (option) clear_helper :: "'a store \<Rightarrow> addr \<Rightarrow> (fault + 'a store) option" where
  "clear_helper s n =
     (if n = 0 then Some (Inr s)
      else case deref s n of
             Inl err \<Rightarrow> Some (Inl err)
           | Inr nd \<Rightarrow>
               (case delete_node n s of
                  Inl err \<Rightarrow> Some (Inl err)
                | Inr s1 \<Rightarrow> clear_helper s1 (next_n nd)))"

declare clear_helper.simps [code]

definition clear :: "'a SparseMatrix \<Rightarrow> 'a store \<Rightarrow> (fault + 'a state) option" where
  "clear m s =
     (case clear_helper s (head m) of
        None \<Rightarrow> None
      | Some (Inl err) \<Rightarrow> Some (Inl err)
      | Some (Inr s1) \<Rightarrow> Some (Inr (m\<lparr>head := 0, size_m := 0\<rparr>, s1)))"

text \<open>The destructor calls \<open>clear\<close>; the object is gone afterwards, the store remains.\<close>

definition destroy :: "'a SparseMatrix \<Rightarrow> 'a store \<Rightarrow> (fault + 'a store) option" where
  "destroy m s =
     (case clear m s of
        None \<Rightarrow> None
      | Some (Inl err) \<Rightarrow> Some (Inl err)
      | Some (Inr (m1, s1)) \<Rightarrow> Some (Inr s1))"

subsection \<open>add\<close>

text \<open>The four ways the loop of \<open>add\<close> ends: at the head, in the middle, on the node
  itself, at the tail. Every statement reads the store the statement before it left.\<close>

definition add_in_testa :: "'a SparseMatrix \<Rightarrow> 'a store \<Rightarrow> addr \<Rightarrow> fault + 'a state" where
  "add_in_testa m s current =
     and_then (set_prev current 0 s) (\<lambda>s1.
     and_then (set_next current (head m) s1) (\<lambda>s2.
     and_then (set_prev (head m) current s2) (\<lambda>s3.
     Inr (m\<lparr>head := current, size_m := size_m m + 1\<rparr>, s3))))"

definition add_in_mezzo :: "'a SparseMatrix \<Rightarrow> 'a store \<Rightarrow> addr \<Rightarrow> addr \<Rightarrow> fault + 'a state" where
  "add_in_mezzo m s current n =
     and_then (deref s n) (\<lambda>nd.
     and_then (deref s (prev_n nd)) (\<lambda>pd.
     and_then (set_next current (next_n pd) s) (\<lambda>s1.
     and_then (deref s1 n) (\<lambda>nd1.
     and_then (set_prev current (prev_n nd1) s1) (\<lambda>s2.
     and_then (deref s2 n) (\<lambda>nd2.
     and_then (set_next (prev_n nd2) current s2) (\<lambda>s3.
     and_then (set_prev n current s3) (\<lambda>s4.
     Inr (m\<lparr>size_m := size_m m + 1\<rparr>, s4)))))))))"

definition aggiorna :: "'a SparseMatrix \<Rightarrow> 'a store \<Rightarrow> addr \<Rightarrow> addr \<Rightarrow> fault + 'a state" where
  "aggiorna m s current n =
     and_then (deref s current) (\<lambda>cd.
     and_then (set_dato n (dato (e cd)) s) (\<lambda>s1.
     and_then (delete_node current s1) (\<lambda>s2.
     Inr (m, s2))))"

definition add_in_coda :: "'a SparseMatrix \<Rightarrow> 'a store \<Rightarrow> addr \<Rightarrow> addr \<Rightarrow> fault + 'a state" where
  "add_in_coda m s current n =
     and_then (set_prev current n s) (\<lambda>s1.
     and_then (set_next current 0 s1) (\<lambda>s2.
     and_then (set_next n current s2) (\<lambda>s3.
     Inr (m\<lparr>size_m := size_m m + 1\<rparr>, s3))))"

text \<open>The \<open>while (n != 0)\<close> loop. Its three \<open>if\<close>s are tried in the source's order; were
  none of them to hold, the loop would go round again on the same node.\<close>

partial_function (option) add_loop ::
  "'a SparseMatrix \<Rightarrow> 'a store \<Rightarrow> int \<Rightarrow> int \<Rightarrow> addr \<Rightarrow> addr \<Rightarrow> (fault + 'a state) option" where
  "add_loop m s r c current n =
     (if n = 0 then Some (Inr (m, s))
      else case deref s n of
             Inl err \<Rightarrow> Some (Inl err)
           | Inr nd \<Rightarrow>
               if r < riga (e nd) \<or> r = riga (e nd) \<and> c < colonna (e nd) then
                 (if prev_n nd = 0 then Some (add_in_testa m s current)
                  else Some (add_in_mezzo m s current n))
               else if r = riga (e nd) \<and> c = colonna (e nd) then
                 Some (aggiorna m s current n)
               else if r > riga (e nd) \<or> r = riga (e nd) \<and> c > colonna (e nd) then
                 (if next_n nd = 0 then Some (add_in_coda m s current n)
                  else add_loop m s r c current (next_n nd))
               else add_loop m s r c current n)"

declare add_loop.simps [code]

definition add ::
  "'a SparseMatrix \<Rightarrow> 'a store \<Rightarrow> int \<Rightarrow> int \<Rightarrow> 'a \<Rightarrow> ('a state error + 'a state) option" where
  "add m s r c v =
     (if \<not> (r \<le> righe m \<and> r > 0) then Some (Inl (Fatal AssertFail))
      else if \<not> (c \<le> colonne m \<and> c > 0) then Some (Inl (Fatal AssertFail))
      else if \<not> (v \<noteq> D m) then Some (Inl (Fatal AssertFail))
      else case new_node \<lparr>e = \<lparr>riga = r, colonna = c, dato = v\<rparr>, next_n = 0, prev_n = 0\<rparr> s of
             None \<Rightarrow> Some (Inl (BadAlloc (m, s)))
           | Some (current, s1) \<Rightarrow>
               if head m = 0 then Some (Inr (m\<lparr>head := current, size_m := size_m m + 1\<rparr>, s1))
               else fatal (add_loop m s1 r c current (head m)))"

subsection \<open>operator()\<close>

partial_function (option) lookup_loop ::
  "'a store \<Rightarrow> 'a \<Rightarrow> int \<Rightarrow> int \<Rightarrow> addr \<Rightarrow> (fault + 'a) option" where
  "lookup_loop s d r c n =
     (if n = 0 then Some (Inr d)
      else case deref s n of
             Inl err \<Rightarrow> Some (Inl err)
           | Inr nd \<Rightarrow>
               if riga (e nd) = r \<and> colonna (e nd) = c then Some (Inr (dato (e nd)))
               else if next_n nd = 0 then Some (Inr d)
               else lookup_loop s d r c (next_n nd))"

declare lookup_loop.simps [code]

definition lookup :: "'a SparseMatrix \<Rightarrow> 'a store \<Rightarrow> int \<Rightarrow> int \<Rightarrow> (fault + 'a) option" where
  "lookup m s r c =
     (if \<not> (r \<le> righe m \<and> r > 0) then Some (Inl AssertFail)
      else if \<not> (c \<le> colonne m \<and> c > 0) then Some (Inl AssertFail)
      else lookup_loop s (D m) r c (head m))"

subsection \<open>The copy constructor\<close>

text \<open>The \<open>catch (...)\<close> catches the allocation failure of \<open>add\<close>, clears what was built
  and rethrows; an abort is not an exception and is not caught.\<close>

partial_function (option) copy_loop ::
  "'a SparseMatrix \<Rightarrow> 'a store \<Rightarrow> addr \<Rightarrow> ('a store error + 'a state) option" where
  "copy_loop m s tmp =
     (if tmp = 0 then Some (Inr (m, s))
      else case deref s tmp of
             Inl err \<Rightarrow> Some (Inl (Fatal err))
           | Inr nd \<Rightarrow>
               (case add m s (riga (e nd)) (colonna (e nd)) (dato (e nd)) of
                  None \<Rightarrow> None
                | Some (Inl (Fatal err)) \<Rightarrow> Some (Inl (Fatal err))
                | Some (Inl (BadAlloc (m1, s1))) \<Rightarrow>
                    (case clear m1 s1 of
                       None \<Rightarrow> None
                     | Some (Inl err) \<Rightarrow> Some (Inl (Fatal err))
                     | Some (Inr (m2, s2)) \<Rightarrow> Some (Inl (BadAlloc s2)))
                | Some (Inr (m1, s1)) \<Rightarrow>
                    (case deref s1 tmp of
                       Inl err \<Rightarrow> Some (Inl (Fatal err))
                     | Inr nd1 \<Rightarrow> copy_loop m1 s1 (next_n nd1))))"

declare copy_loop.simps [code]

definition copy_ctor :: "'a SparseMatrix \<Rightarrow> 'a store \<Rightarrow> ('a store error + 'a state) option" where
  "copy_ctor other s =
     copy_loop \<lparr>head = 0, righe = righe other, colonne = colonne other, size_m = 0, D = D other\<rparr>
       s (head other)"

subsection \<open>Iterators\<close>

text \<open>\<open>iterator\<close> and \<open>const_iterator\<close> hold one node pointer \<open>n\<close> and differ only in
  what the dereferenced element may be used for.\<close>

record iterator =
  it_n :: addr

definition iterator_default :: iterator where
  "iterator_default = \<lparr>it_n = 0\<rparr>"

definition begin_it :: "'a SparseMatrix \<Rightarrow> iterator" where
  "begin_it m = \<lparr>it_n = head m\<rparr>"

definition end_it :: "'a SparseMatrix \<Rightarrow> iterator" where
  "end_it m = \<lparr>it_n = 0\<rparr>"

definition iterator_deref :: "'a store \<Rightarrow> iterator \<Rightarrow> fault + 'a element" where
  "iterator_deref s it = and_then (deref s (it_n it)) (\<lambda>nd. Inr (e nd))"

definition iterator_incr :: "'a store \<Rightarrow> iterator \<Rightarrow> fault + iterator" where
  "iterator_incr s it = and_then (deref s (it_n it)) (\<lambda>nd. Inr (it\<lparr>it_n := next_n nd\<rparr>))"

definition iterator_neq :: "iterator \<Rightarrow> iterator \<Rightarrow> bool" where
  "iterator_neq a b = (it_n a \<noteq> it_n b)"

text \<open>\<open>(*it).dato = v\<close> through a mutable iterator.\<close>

definition iterator_write :: "'a store \<Rightarrow> iterator \<Rightarrow> 'a \<Rightarrow> fault + 'a store" where
  "iterator_write s it v = set_dato (it_n it) v s"

text \<open>The traversal \<open>for (it = begin(); it != end(); ++it)\<close> that collects \<open>*it\<close>.\<close>

partial_function (option) iterate_loop ::
  "'a store \<Rightarrow> iterator \<Rightarrow> iterator \<Rightarrow> 'a element list \<Rightarrow> (fault + 'a element list) option" where
  "iterate_loop s it ie acc =
     (if iterator_neq it ie then
        (case iterator_deref s it of
           Inl err \<Rightarrow> Some (Inl err)
         | Inr x \<Rightarrow>
             (case iterator_incr s it of
                Inl err \<Rightarrow> Some (Inl err)
              | Inr it1 \<Rightarrow> iterate_loop s it1 ie (acc @ [x])))
      else Some (Inr acc))"

declare iterate_loop.simps [code]

definition iterate :: "'a SparseMatrix \<Rightarrow> 'a store \<Rightarrow> (fault + 'a element list) option" where
  "iterate m s = iterate_loop s (begin_it m) (end_it m) []"

subsection \<open>The converting constructor\<close>

text \<open>
  The source matrix has elements of type \<open>'q\<close>, the new one of type \<open>'a\<close>; each element
  type has its store. \<open>conv\<close> is the cast \<open>(T)\<close>. The loop evaluates \<open>*Ib\<close> three times on
  a store it does not change, so one dereference stands for them.
\<close>

partial_function (option) convert_loop ::
  "('q \<Rightarrow> 'a) \<Rightarrow> 'q store \<Rightarrow> 'a SparseMatrix \<Rightarrow> 'a store \<Rightarrow> iterator \<Rightarrow> iterator \<Rightarrow>
   ('a state error + 'a state) option" where
  "convert_loop conv sq m s Ib Ie =
     (if iterator_neq Ib Ie then
        (case iterator_deref sq Ib of
           Inl err \<Rightarrow> Some (Inl (Fatal err))
         | Inr x \<Rightarrow>
             (case add m s (riga x) (colonna x) (conv (dato x)) of
                None \<Rightarrow> None
              | Some (Inl err) \<Rightarrow> Some (Inl err)
              | Some (Inr (m1, s1)) \<Rightarrow>
                  (case iterator_incr sq Ib of
                     Inl err \<Rightarrow> Some (Inl (Fatal err))
                   | Inr Ib1 \<Rightarrow> convert_loop conv sq m1 s1 Ib1 Ie)))
      else Some (Inr (m, s)))"

declare convert_loop.simps [code]

text \<open>Lines 219 to 231: the default value, the loop with its \<open>catch\<close>, and the
  destructor of the temporary copy \<open>tmp\<close>, which runs when the constructor returns and
  when it throws.\<close>

definition convert_fill ::
  "('q \<Rightarrow> 'a) \<Rightarrow> 'q SparseMatrix \<Rightarrow> 'q SparseMatrix \<Rightarrow> 'q store \<Rightarrow> 'a store \<Rightarrow>
   (('q store \<times> 'a store) error + 'a SparseMatrix \<times> 'q store \<times> 'a store) option" where
  "convert_fill conv other tmp sq s =
     (case convert_loop conv sq
             \<lparr>head = 0, righe = get_righe other, colonne = get_colonne other, size_m = 0,
              D = conv (get_default other)\<rparr>
             s (begin_it tmp) (end_it tmp) of
        None \<Rightarrow> None
      | Some (Inl (Fatal err)) \<Rightarrow> Some (Inl (Fatal err))
      | Some (Inl (BadAlloc (m1, s1))) \<Rightarrow>
          (case clear m1 s1 of
             None \<Rightarrow> None
           | Some (Inl err) \<Rightarrow> Some (Inl (Fatal err))
           | Some (Inr (m2, s2)) \<Rightarrow>
               (case destroy tmp sq of
                  None \<Rightarrow> None
                | Some (Inl err) \<Rightarrow> Some (Inl (Fatal err))
                | Some (Inr sq1) \<Rightarrow> Some (Inl (BadAlloc (sq1, s2)))))
      | Some (Inr (m1, s1)) \<Rightarrow>
          (case destroy tmp sq of
             None \<Rightarrow> None
           | Some (Inl err) \<Rightarrow> Some (Inl (Fatal err))
           | Some (Inr sq1) \<Rightarrow> Some (Inr (m1, sq1, s1))))"

text \<open>The whole constructor: the temporary copy (line 216), the two default-constructed
  iterators and the cast of \<open>(*Ib).dato\<close> (lines 217 and 218), then the rest.\<close>

definition convert_ctor ::
  "('q \<Rightarrow> 'a) \<Rightarrow> 'q SparseMatrix \<Rightarrow> 'q store \<Rightarrow> 'a store \<Rightarrow>
   (('q store \<times> 'a store) error + 'a SparseMatrix \<times> 'q store \<times> 'a store) option" where
  "convert_ctor conv other sq s =
     (case copy_ctor other sq of
        None \<Rightarrow> None
      | Some (Inl (Fatal err)) \<Rightarrow> Some (Inl (Fatal err))
      | Some (Inl (BadAlloc sq1)) \<Rightarrow> Some (Inl (BadAlloc (sq1, s)))
      | Some (Inr (tmp, sq1)) \<Rightarrow>
          (case iterator_deref sq1 iterator_default of
             Inl err \<Rightarrow> Some (Inl (Fatal err))
           | Inr x \<Rightarrow> convert_fill conv other tmp sq1 s))"

subsection \<open>evaluate\<close>

text \<open>\<open>i\<close>, \<open>j\<close> and \<open>counter\<close> are \<open>int\<close>s that the function increments: 32 bits, signed,
  and incrementing the largest value is an overflow.\<close>

definition INT_MAX :: int where
  "INT_MAX = 2147483647"

definition incr_int :: "int \<Rightarrow> fault + int" where
  "incr_int i = (if i < INT_MAX then Inr (i + 1) else Inl IntOverflow)"

partial_function (option) evaluate_cols ::
  "'a SparseMatrix \<Rightarrow> 'a store \<Rightarrow> ('a \<Rightarrow> bool) \<Rightarrow> int \<Rightarrow> int \<Rightarrow> int \<Rightarrow> (fault + int) option" where
  "evaluate_cols M s p i j counter =
     (if j \<le> get_colonne M then
        (case lookup M s i j of
           None \<Rightarrow> None
         | Some (Inl err) \<Rightarrow> Some (Inl err)
         | Some (Inr v) \<Rightarrow>
             (case (if p v then incr_int counter else Inr counter) of
                Inl err \<Rightarrow> Some (Inl err)
              | Inr counter1 \<Rightarrow>
                  (case incr_int j of
                     Inl err \<Rightarrow> Some (Inl err)
                   | Inr j1 \<Rightarrow> evaluate_cols M s p i j1 counter1)))
      else Some (Inr counter))"

declare evaluate_cols.simps [code]

partial_function (option) evaluate_rows ::
  "'a SparseMatrix \<Rightarrow> 'a store \<Rightarrow> ('a \<Rightarrow> bool) \<Rightarrow> int \<Rightarrow> int \<Rightarrow> (fault + int) option" where
  "evaluate_rows M s p i counter =
     (if i \<le> get_righe M then
        (case evaluate_cols M s p i 1 counter of
           None \<Rightarrow> None
         | Some (Inl err) \<Rightarrow> Some (Inl err)
         | Some (Inr counter1) \<Rightarrow>
             (case incr_int i of
                Inl err \<Rightarrow> Some (Inl err)
              | Inr i1 \<Rightarrow> evaluate_rows M s p i1 counter1))
      else Some (Inr counter))"

declare evaluate_rows.simps [code]

definition evaluate :: "'a SparseMatrix \<Rightarrow> 'a store \<Rightarrow> ('a \<Rightarrow> bool) \<Rightarrow> (fault + int) option" where
  "evaluate M s p = evaluate_rows M s p 1 0"

subsection \<open>Sequences of calls\<close>

text \<open>A caller's sequence of mutations of one matrix: \<open>add\<close>, \<open>set_default\<close>, and a write
  through a mutable iterator that was advanced \<open>k\<close> times from \<open>begin()\<close>.\<close>

datatype 'a op = Add int int 'a | SetDefault 'a | Write nat 'a

fun advance :: "'a store \<Rightarrow> iterator \<Rightarrow> nat \<Rightarrow> fault + iterator" where
  "advance s it 0 = Inr it"
| "advance s it (Suc k) = and_then (iterator_incr s it) (\<lambda>it1. advance s it1 k)"

fun apply_op :: "'a state \<Rightarrow> 'a op \<Rightarrow> ('a state error + 'a state) option" where
  "apply_op (m, s) (Add r c v) = add m s r c v"
| "apply_op (m, s) (SetDefault d) = Some (Inr (set_default m d, s))"
| "apply_op (m, s) (Write k v) =
     fatal (Some (and_then (advance s (begin_it m) k) (\<lambda>it.
            and_then (iterator_write s it v) (\<lambda>s1. Inr (m, s1)))))"

fun run :: "'a state \<Rightarrow> 'a op list \<Rightarrow> ('a state error + 'a state) option" where
  "run st [] = Some (Inr st)"
| "run st (x # xs) =
     (case apply_op st x of
        None \<Rightarrow> None
      | Some (Inl err) \<Rightarrow> Some (Inl err)
      | Some (Inr st1) \<Rightarrow> run st1 xs)"


section \<open>The chain as a list\<close>

text \<open>
  \<open>dll h p pr as q\<close>: following \<open>next\<close> from \<open>p\<close> visits the live, non-null nodes \<open>as\<close> in
  this order and arrives at \<open>q\<close>; the \<open>prev\<close> of each visited node is the node visited before
  it, and \<open>pr\<close> for the first.
\<close>

fun dll :: "(addr \<rightharpoonup> 'a node) \<Rightarrow> addr \<Rightarrow> addr \<Rightarrow> addr list \<Rightarrow> addr \<Rightarrow> bool" where
  "dll h p pr [] q = (p = q)"
| "dll h p pr (a # as) q =
     (p = a \<and> a \<noteq> 0 \<and>
      (case h a of None \<Rightarrow> False | Some nd \<Rightarrow> prev_n nd = pr \<and> dll h (next_n nd) a as q))"

definition elem_at :: "(addr \<rightharpoonup> 'a node) \<Rightarrow> addr \<Rightarrow> 'a element" where
  "elem_at h a = (case h a of None \<Rightarrow> undefined | Some nd \<Rightarrow> e nd)"

definition elems :: "(addr \<rightharpoonup> 'a node) \<Rightarrow> addr list \<Rightarrow> 'a element list" where
  "elems h as = map (elem_at h) as"

definition key :: "'a element \<Rightarrow> int \<times> int" where
  "key x = (riga x, colonna x)"

text \<open>Sorted insertion and lookup on the list of stored cells.\<close>

fun ins :: "int \<Rightarrow> int \<Rightarrow> 'a \<Rightarrow> 'a element list \<Rightarrow> 'a element list" where
  "ins r c v [] = [\<lparr>riga = r, colonna = c, dato = v\<rparr>]"
| "ins r c v (x # xs) =
     (if r < riga x \<or> r = riga x \<and> c < colonna x then \<lparr>riga = r, colonna = c, dato = v\<rparr> # x # xs
      else if r = riga x \<and> c = colonna x then x\<lparr>dato := v\<rparr> # xs
      else x # ins r c v xs)"

fun alookup :: "'a \<Rightarrow> int \<Rightarrow> int \<Rightarrow> 'a element list \<Rightarrow> 'a" where
  "alookup d r c [] = d"
| "alookup d r c (x # xs) = (if riga x = r \<and> colonna x = c then dato x else alookup d r c xs)"

definition store_ok :: "'a store \<Rightarrow> bool" where
  "store_ok s = (distinct (free s) \<and> 0 \<notin> set (free s) \<and> list_all (\<lambda>a. cells s a = None) (free s))"


definition passed :: "int \<Rightarrow> int \<Rightarrow> 'a element \<Rightarrow> bool" where
  "passed r c x = (riga x < r \<or> riga x = r \<and> colonna x < c)"

definition add_loop_post ::
  "'a SparseMatrix \<Rightarrow> 'a store \<Rightarrow> int \<Rightarrow> int \<Rightarrow> 'a \<Rightarrow> addr \<Rightarrow> addr list \<Rightarrow>
   'a SparseMatrix \<Rightarrow> 'a store \<Rightarrow> addr list \<Rightarrow> bool" where
  "add_loop_post m s r c v current as m' s' as' =
    (dll (cells s') (head m') 0 as' 0 \<and>
     elems (cells s') as' = ins r c v (elems (cells s) as) \<and>
     righe m' = righe m \<and> colonne m' = colonne m \<and> D m' = D m \<and>
     (\<forall>a. a \<notin> set as \<longrightarrow> a \<noteq> current \<longrightarrow> cells s' a = cells s a) \<and>
     ((set as' = insert current (set as) \<and> distinct as' \<and>
         free s' = free s \<and> size_m m' = size_m m + 1) \<or>
      (as' = as \<and> free s' = current # free s \<and> cells s' current = None \<and>
         size_m m' = size_m m)))"


text \<open>The representation invariant: the chain from \<open>head\<close> is the doubly linked list of
  the live nodes \<open>as\<close>, \<open>size\<close> counts them, and the stored cells are in range and in
  strictly ascending (row, column) order.\<close>

definition chain :: "'a SparseMatrix \<Rightarrow> 'a store \<Rightarrow> addr list \<Rightarrow> bool" where
  "chain m s as = (dll (cells s) (head m) 0 as 0 \<and> distinct as)"

definition ascending :: "'a element list \<Rightarrow> bool" where
  "ascending xs = sorted_wrt (<) (map key xs)"

definition in_range :: "'a SparseMatrix \<Rightarrow> 'a element \<Rightarrow> bool" where
  "in_range m x = (0 < riga x \<and> riga x \<le> righe m \<and> 0 < colonna x \<and> colonna x \<le> colonne m)"

definition matrix_inv :: "'a SparseMatrix \<Rightarrow> 'a store \<Rightarrow> addr list \<Rightarrow> bool" where
  "matrix_inv m s as =
    (store_ok s \<and> chain m s as \<and> size_m m = of_nat (length as) \<and>
     0 < righe m \<and> 0 < colonne m \<and>
     ascending (elems (cells s) as) \<and> list_all (in_range m) (elems (cells s) as))"

text \<open>What a sequence of calls does to the list of stored cells, the value the last
  \<open>add\<close> at a position gave, and the positions that were added.\<close>

fun abs_op :: "'a op \<Rightarrow> 'a element list \<Rightarrow> 'a element list" where
  "abs_op (Add r c v) xs = ins r c v xs"
| "abs_op (SetDefault d) xs = xs"
| "abs_op (Write k v) xs = xs[k := (xs ! k)\<lparr>dato := v\<rparr>]"

fun last_add :: "int \<Rightarrow> int \<Rightarrow> 'a op list \<Rightarrow> 'a option" where
  "last_add r c [] = None"
| "last_add r c (Add r' c' v # ops) =
     (case last_add r c ops of
        Some w \<Rightarrow> Some w
      | None \<Rightarrow> if r' = r \<and> c' = c then Some v else None)"
| "last_add r c (SetDefault d # ops) = last_add r c ops"
| "last_add r c (Write k v # ops) = last_add r c ops"

fun add_positions :: "'a op list \<Rightarrow> (int \<times> int) list" where
  "add_positions [] = []"
| "add_positions (Add r c v # ops) = (r, c) # add_positions ops"
| "add_positions (SetDefault d # ops) = add_positions ops"
| "add_positions (Write k v # ops) = add_positions ops"

fun last_default :: "'a \<Rightarrow> 'a op list \<Rightarrow> 'a" where
  "last_default d [] = d"
| "last_default d (SetDefault d' # ops) = last_default d' ops"
| "last_default d (Add r c v # ops) = last_default d ops"
| "last_default d (Write k v # ops) = last_default d ops"

fun is_write :: "'a op \<Rightarrow> bool" where
  "is_write (Write k v) = True"
| "is_write (Add r c v) = False"
| "is_write (SetDefault d) = False"

text \<open>The calls respect the preconditions of \<open>add\<close> (the default value is the one the
  calls before have set), and none of them writes through an iterator.\<close>

fun calls_ok :: "int \<Rightarrow> int \<Rightarrow> 'a \<Rightarrow> 'a op list \<Rightarrow> bool" where
  "calls_ok R C d [] = True"
| "calls_ok R C d (Add r c v # ops) =
     (0 < r \<and> r \<le> R \<and> 0 < c \<and> c \<le> C \<and> v \<noteq> d \<and> calls_ok R C d ops)"
| "calls_ok R C d (SetDefault d' # ops) = calls_ok R C d' ops"
| "calls_ok R C d (Write k v # ops) = False"

text \<open>The matrix of the demonstration program: \<open>SparseMatrix<int> I(3, 2, 999)\<close>, its first
  four calls of \<open>add\<close>, the next four, and a store with \<open>n\<close> free addresses.\<close>

definition fresh_store :: "nat \<Rightarrow> 'a store" where
  "fresh_store n = \<lparr>cells = Map.empty, free = [1..<Suc n]\<rparr>"

definition demo_I :: "int SparseMatrix" where
  "demo_I = \<lparr>head = 0, righe = 3, colonne = 2, size_m = 0, D = 999\<rparr>"

definition demo_adds :: "int op list" where
  "demo_adds = [Add 2 2 4, Add 2 2 14, Add 1 2 2, Add 2 2 5]"

definition demo_adds2 :: "int op list" where
  "demo_adds2 = [Add 1 1 3, Add 3 2 6, Add 3 1 5, Add 2 1 3]"

text \<open>A matrix of three rows and \<open>2^31 - 1\<close> columns, and \<open>2^32\<close> calls of \<open>add\<close> at
  distinct positions of it.\<close>

definition wide_M :: "int SparseMatrix" where
  "wide_M = \<lparr>head = 0, righe = 3, colonne = 2147483647, size_m = 0, D = 0\<rparr>"

definition wide_adds :: "int op list" where
  "wide_adds =
     map (\<lambda>k. Add (1 + int k div 2147483647) (1 + int k mod 2147483647) 1) [0..<4294967296]"

text \<open>The demonstration program's matrix after its first call \<open>I.add(2, 2, 4)\<close>, in a
  store that had three free addresses.\<close>

definition demo_I1 :: "int SparseMatrix" where
  "demo_I1 = \<lparr>head = 1, righe = 3, colonne = 2, size_m = 1, D = 999\<rparr>"

definition demo_S1 :: "int store" where
  "demo_S1 =
     \<lparr>cells = [1 \<mapsto> \<lparr>e = \<lparr>riga = 2, colonna = 2, dato = 4\<rparr>, next_n = 0, prev_n = 0\<rparr>],
      free = [2, 3]\<rparr>"

text \<open>The number of positions \<open>(i, j)\<close> of the grid, rows outer and columns inner, at
  which \<open>operator()\<close> returns a value that satisfies the predicate.\<close>

definition count_matches :: "'a SparseMatrix \<Rightarrow> 'a store \<Rightarrow> ('a \<Rightarrow> bool) \<Rightarrow> nat" where
  "count_matches M s p =
     length (filter (\<lambda>(i, j). case lookup M s i j of Some (Inr v) \<Rightarrow> p v | _ \<Rightarrow> False)
       (List.product [1..get_righe M] [1..get_colonne M]))"

text \<open>An empty matrix of 46341 rows and 46341 columns: 2147488281 positions.\<close>

definition square_M :: "int SparseMatrix" where
  "square_M = \<lparr>head = 0, righe = 46341, colonne = 46341, size_m = 0, D = 0\<rparr>"

text \<open>The matches of row \<open>i\<close> from column \<open>j\<close> on, and a count that fits an \<open>int\<close>.\<close>

definition row_count :: "'a \<Rightarrow> 'a element list \<Rightarrow> ('a \<Rightarrow> bool) \<Rightarrow> int \<Rightarrow> int \<Rightarrow> int \<Rightarrow> nat" where
  "row_count d xs p i j C = length (filter (\<lambda>j'. p (alookup d i j' xs)) [j..C])"

definition capped :: "int \<Rightarrow> fault + int" where
  "capped n = (if n \<le> INT_MAX then Inr n else Inl IntOverflow)"

text \<open>The invariant of the copy loop. The source \<open>other\<close> has the chain \<open>src\<close> in the store
  \<open>s0\<close> the copy started from; the copy \<open>m\<close> has the chain \<open>bs\<close>, built from what was free
  in \<open>s0\<close>, and holds the cells of the part \<open>pre\<close> of the source that was walked.\<close>

definition copy_inv ::
  "'a SparseMatrix \<Rightarrow> 'a store \<Rightarrow> addr list \<Rightarrow> 'a SparseMatrix \<Rightarrow> 'a store \<Rightarrow> addr list \<Rightarrow>
   addr list \<Rightarrow> bool" where
  "copy_inv other s0 src m s bs pre =
    (matrix_inv m s bs \<and> (\<forall>a\<in>set src. cells s a = cells s0 a) \<and> set bs \<inter> set src = {} \<and>
     elems (cells s) bs = elems (cells s0) pre \<and>
     righe m = righe other \<and> colonne m = colonne other \<and> D m = D other \<and>
     set bs \<union> set (free s) = set (free s0) \<and>
     (\<forall>a. a \<notin> set (free s0) \<longrightarrow> cells s a = cells s0 a) \<and>
     length bs + length (free s) = length (free s0))"

text \<open>The cell with its value cast, and the invariant of the loop of the converting
  constructor: the new matrix \<open>m\<close> has the chain \<open>bs\<close> in its store \<open>s\<close>, built from what was
  free in the store \<open>s0\<close> the constructor started from, and holds the cast cells of the
  part \<open>pre\<close> of the temporary copy (in the store \<open>sq\<close>) that was walked.\<close>

definition conv_elem :: "('q \<Rightarrow> 'a) \<Rightarrow> 'q element \<Rightarrow> 'a element" where
  "conv_elem conv x = \<lparr>riga = riga x, colonna = colonna x, dato = conv (dato x)\<rparr>"

definition conv_inv ::
  "('q \<Rightarrow> 'a) \<Rightarrow> 'q SparseMatrix \<Rightarrow> 'q store \<Rightarrow> 'a store \<Rightarrow> 'a SparseMatrix \<Rightarrow> 'a store \<Rightarrow>
   addr list \<Rightarrow> addr list \<Rightarrow> bool" where
  "conv_inv conv other sq s0 m s bs pre =
    (matrix_inv m s bs \<and>
     elems (cells s) bs = map (conv_elem conv) (elems (cells sq) pre) \<and>
     righe m = righe other \<and> colonne m = colonne other \<and> D m = conv (D other) \<and>
     set bs \<union> set (free s) = set (free s0) \<and>
     (\<forall>a. a \<notin> set (free s0) \<longrightarrow> cells s a = cells s0 a) \<and>
     length bs + length (free s) = length (free s0))"

text \<open>The copy of that matrix that the copy constructor builds in that store, and the
  store after it; the explicit conversions \<open>(bool)\<close> of an \<open>int\<close> and \<open>(long)\<close> of an \<open>int\<close>.\<close>

definition demo_tmp :: "int SparseMatrix" where
  "demo_tmp = \<lparr>head = 2, righe = 3, colonne = 2, size_m = 1, D = 999\<rparr>"

definition demo_S2 :: "int store" where
  "demo_S2 =
     \<lparr>cells = [1 \<mapsto> \<lparr>e = \<lparr>riga = 2, colonna = 2, dato = 4\<rparr>, next_n = 0, prev_n = 0\<rparr>,
               2 \<mapsto> \<lparr>e = \<lparr>riga = 2, colonna = 2, dato = 4\<rparr>, next_n = 0, prev_n = 0\<rparr>],
      free = [3]\<rparr>"

definition to_bool :: "int \<Rightarrow> bool" where
  "to_bool v = (v \<noteq> 0)"

definition to_long :: "int \<Rightarrow> 64 word" where
  "to_long v = of_int v"



section \<open>The loop of add on the chain\<close>

lemma dll_append:
  "dll h p pr (xs @ ys) q \<longleftrightarrow> (\<exists>mid. dll h p pr xs mid \<and> dll h mid (last (pr # xs)) ys q)"
  by (induction xs arbitrary: p pr) (auto split: option.splits)

lemma dll_upd_notin:
  "a \<notin> set as \<Longrightarrow> dll (h(a := x)) p pr as q = dll h p pr as q"
  by (induction as arbitrary: p pr) (auto split: option.splits)

lemma dll_nonzero: "dll h p pr as q \<Longrightarrow> 0 \<notin> set as"
  by (induction as arbitrary: p pr) (auto split: option.splits)

lemma dll_null: "dll h 0 pr as q \<longleftrightarrow> as = [] \<and> q = 0"
  by (cases as) auto

lemma dll_live: "dll h p pr as q \<Longrightarrow> a \<in> set as \<Longrightarrow> h a \<noteq> None"
  by (induction as arbitrary: p pr) (auto split: option.splits)

lemma deref_live: "p \<noteq> 0 \<Longrightarrow> cells s p = Some nd \<Longrightarrow> deref s p = Inr nd"
  by (simp add: deref_def)

lemma set_next_live:
  "p \<noteq> 0 \<Longrightarrow> cells s p = Some nd \<Longrightarrow>
   set_next p v s = Inr (s\<lparr>cells := (cells s)(p \<mapsto> nd\<lparr>next_n := v\<rparr>)\<rparr>)"
  by (simp add: set_next_def and_then_def deref_def)

lemma set_prev_live:
  "p \<noteq> 0 \<Longrightarrow> cells s p = Some nd \<Longrightarrow>
   set_prev p v s = Inr (s\<lparr>cells := (cells s)(p \<mapsto> nd\<lparr>prev_n := v\<rparr>)\<rparr>)"
  by (simp add: set_prev_def and_then_def deref_def)

lemma set_dato_live:
  "p \<noteq> 0 \<Longrightarrow> cells s p = Some nd \<Longrightarrow>
   set_dato p v s = Inr (s\<lparr>cells := (cells s)(p \<mapsto> nd\<lparr>e := (e nd)\<lparr>dato := v\<rparr>\<rparr>)\<rparr>)"
  by (simp add: set_dato_def and_then_def deref_def)

lemma delete_node_live:
  "p \<noteq> 0 \<Longrightarrow> cells s p = Some nd \<Longrightarrow>
   delete_node p s = Inr (s\<lparr>cells := (cells s)(p := None), free := p # free s\<rparr>)"
  by (simp add: delete_node_def)

lemma and_then_Inr: "and_then (Inr x) f = f x"
  by (simp add: and_then_def)

lemma ins_append_passed:
  "\<forall>x\<in>set xs. passed r c x \<Longrightarrow> ins r c v (xs @ ys) = xs @ ins r c v ys"
  by (induction xs) (auto simp: passed_def)

lemma elems_upd_notin:
  "a \<notin> set as \<Longrightarrow> elems (h(a := x)) as = elems h as"
  by (simp add: elems_def elem_at_def)

lemma elems_append: "elems h (xs @ ys) = elems h xs @ elems h ys"
  by (simp add: elems_def)

lemma elems_Cons: "elems h (a # as) = elem_at h a # elems h as"
  by (simp add: elems_def)

lemma elems_Nil: "elems h [] = []"
  by (simp add: elems_def)

text \<open>head insert\<close>
lemma add_in_testa_dll:
  assumes d: "dll (cells s) (head m) 0 (n # post) 0"
    and dist: "distinct (n # post)" and cur: "current \<notin> set (n # post)" "current \<noteq> 0"
    and cc: "cells s current = Some cd"
  shows "\<exists>s'. add_in_testa m s current = Inr (m\<lparr>head := current, size_m := size_m m + 1\<rparr>, s')
     \<and> dll (cells s') current 0 (current # n # post) 0
     \<and> elems (cells s') (current # n # post) = e cd # elems (cells s) (n # post)
     \<and> (\<forall>a. a \<noteq> n \<longrightarrow> a \<noteq> current \<longrightarrow> cells s' a = cells s a)
     \<and> free s' = free s"
  using assms
  by (auto simp: add_in_testa_def set_prev_live set_next_live and_then_Inr dll_upd_notin
      elems_Cons elems_upd_notin elem_at_def split: option.splits)


text \<open>middle insert\<close>
lemma add_in_mezzo_dll:
  assumes d: "dll (cells s) hd0 0 (pre @ p # n # post) 0"
    and dist: "distinct (pre @ p # n # post)" and cur: "current \<notin> set (pre @ p # n # post)" "current \<noteq> 0"
    and cc: "cells s current = Some cd"
  shows "\<exists>s'. add_in_mezzo m s current n = Inr (m\<lparr>size_m := size_m m + 1\<rparr>, s')
     \<and> dll (cells s') hd0 0 (pre @ p # current # n # post) 0
     \<and> elems (cells s') (pre @ p # current # n # post) = elems (cells s) (pre @ [p]) @ e cd # elems (cells s) (n # post)
     \<and> (\<forall>a. a \<noteq> n \<longrightarrow> a \<noteq> p \<longrightarrow> a \<noteq> current \<longrightarrow> cells s' a = cells s a)
     \<and> free s' = free s"
proof -
  from d obtain pd nd where
    p: "cells s p = Some pd" "p \<noteq> 0" "next_n pd = n" "prev_n pd = last (0 # pre)"
    and n: "cells s n = Some nd" "n \<noteq> 0" "prev_n nd = p"
    and rest: "dll (cells s) (next_n nd) n post 0"
    and pre: "dll (cells s) hd0 0 pre p"
    by (auto simp: dll_append split: option.splits)
  let ?h = "(cells s)(current \<mapsto> cd\<lparr>next_n := n, prev_n := p\<rparr>,
      p \<mapsto> pd\<lparr>next_n := current\<rparr>, n \<mapsto> nd\<lparr>prev_n := current\<rparr>)"
  have neq: "current \<noteq> p" "current \<noteq> n" "p \<noteq> n"
    using dist cur by auto
  have run: "add_in_mezzo m s current n = Inr (m\<lparr>size_m := size_m m + 1\<rparr>, s\<lparr>cells := ?h\<rparr>)"
    using p n cc cur(2) neq
    by (simp add: add_in_mezzo_def set_prev_live set_next_live deref_live and_then_Inr)
  have notin: "current \<notin> set pre" "p \<notin> set pre" "n \<notin> set pre"
    "current \<notin> set post" "p \<notin> set post" "n \<notin> set post"
    using dist cur by auto
  have d1: "dll ?h hd0 0 pre p"
    using pre notin by (simp add: dll_upd_notin)
  have d2: "dll ?h (next_n nd) n post 0"
    using rest notin by (simp add: dll_upd_notin)
  have d': "dll ?h hd0 0 (pre @ p # current # n # post) 0"
    using d1 d2 p n neq cur(2) by (simp add: dll_append)
  have el: "elems ?h (pre @ p # current # n # post)
      = elems (cells s) (pre @ [p]) @ e cd # elems (cells s) (n # post)"
    using notin neq p n by (simp add: elems_append elems_Cons elems_Nil elems_upd_notin elem_at_def)
  show ?thesis
    using run d' el by (intro exI[of _ "s\<lparr>cells := ?h\<rparr>"]) simp
qed

text \<open>update in place\<close>
lemma aggiorna_dll:
  assumes d: "dll (cells s) hd0 0 (pre @ n # post) 0"
    and dist: "distinct (pre @ n # post)" and cur: "current \<notin> set (pre @ n # post)" "current \<noteq> 0"
    and cc: "cells s current = Some cd"
  shows "\<exists>s'. aggiorna m s current n = Inr (m, s')
     \<and> dll (cells s') hd0 0 (pre @ n # post) 0
     \<and> elems (cells s') (pre @ n # post) = elems (cells s) pre @ (elem_at (cells s) n)\<lparr>dato := dato (e cd)\<rparr> # elems (cells s) post
     \<and> (\<forall>a. a \<noteq> n \<longrightarrow> a \<noteq> current \<longrightarrow> cells s' a = cells s a)
     \<and> cells s' current = None
     \<and> free s' = current # free s"
  using assms
  by (auto simp: aggiorna_def set_dato_live delete_node_live deref_live and_then_Inr dll_upd_notin dll_append
      elems_Cons elems_Nil elems_append elems_upd_notin elem_at_def split: option.splits)

text \<open>tail insert\<close>
lemma add_in_coda_dll:
  assumes d: "dll (cells s) hd0 0 (pre @ [n]) 0"
    and dist: "distinct (pre @ [n])" and cur: "current \<notin> set (pre @ [n])" "current \<noteq> 0"
    and cc: "cells s current = Some cd"
  shows "\<exists>s'. add_in_coda m s current n = Inr (m\<lparr>size_m := size_m m + 1\<rparr>, s')
     \<and> dll (cells s') hd0 0 (pre @ [n, current]) 0
     \<and> elems (cells s') (pre @ [n, current]) = elems (cells s) (pre @ [n]) @ [e cd]
     \<and> (\<forall>a. a \<noteq> n \<longrightarrow> a \<noteq> current \<longrightarrow> cells s' a = cells s a)
     \<and> free s' = free s"
  using assms
  by (auto simp: add_in_coda_def set_prev_live set_next_live deref_live and_then_Inr dll_upd_notin dll_append
      elems_Cons elems_Nil elems_append elems_upd_notin elem_at_def split: option.splits)


lemma dll_mid:
  assumes "dll h p0 0 (pre @ n # post) 0"
  shows "\<exists>nd. h n = Some nd \<and> n \<noteq> 0 \<and> prev_n nd = last (0 # pre) \<and> dll h (next_n nd) n post 0
     \<and> dll h p0 0 pre n \<and> 0 \<notin> set pre \<and> 0 \<notin> set post"
  using assms dll_nonzero[OF assms]
  by (auto simp: dll_append split: option.splits)

lemma elems_map_passed:
  "(\<forall>a\<in>set pre. passed r c (elem_at h a)) \<Longrightarrow> \<forall>x\<in>set (elems h pre). passed r c x"
  by (simp add: elems_def)


lemma add_loop_step:
  assumes d: "dll (cells s) (head m) 0 (pre @ n # post) 0"
    and dist: "distinct (pre @ n # post)"
    and cur: "current \<notin> set (pre @ n # post)" "current \<noteq> 0"
    and cc: "cells s current = Some cd" "e cd = \<lparr>riga = r, colonna = c, dato = v\<rparr>"
    and pass: "\<forall>a\<in>set pre. passed r c (elem_at (cells s) a)"
    and nd: "cells s n = Some nd"
    and stop: "\<not> passed r c (e nd) \<or> post = []"
  shows "\<exists>m' s' as'. add_loop m s r c current n = Some (Inr (m', s')) \<and>
     add_loop_post m s r c v current (pre @ n # post) m' s' as'"
proof -
  from dll_mid[OF d] nd have
    nd': "n \<noteq> 0" "prev_n nd = last (0 # pre)" "dll (cells s) (next_n nd) n post 0"
    and pre: "dll (cells s) (head m) 0 pre n" "0 \<notin> set pre"
    by auto
  have en: "elem_at (cells s) n = e nd" using nd by (simp add: elem_at_def)
  have insp: "ins r c v (elems (cells s) (pre @ n # post))
      = elems (cells s) pre @ ins r c v (e nd # elems (cells s) post)"
    using pass en by (simp add: elems_append ins_append_passed elems_map_passed elems_Cons)
  consider (before) "r < riga (e nd) \<or> r = riga (e nd) \<and> c < colonna (e nd)"
    | (same) "r = riga (e nd) \<and> c = colonna (e nd)"
    | (after) "passed r c (e nd)" "post = []"
    using stop unfolding passed_def by linarith
  then show ?thesis
  proof cases
    case before
    show ?thesis
    proof (cases pre rule: rev_cases)
      case Nil
      then have hm: "head m = n" using pre by simp
      from add_in_testa_dll[of s m n post current cd] d dist cur cc Nil hm
      obtain s' where s': "add_in_testa m s current = Inr (m\<lparr>head := current, size_m := size_m m + 1\<rparr>, s')"
        "dll (cells s') current 0 (current # n # post) 0"
        "elems (cells s') (current # n # post) = e cd # elems (cells s) (n # post)"
        "\<forall>a. a \<noteq> n \<longrightarrow> a \<noteq> current \<longrightarrow> cells s' a = cells s a" "free s' = free s"
        by auto
      have "add_loop m s r c current n = Some (add_in_testa m s current)"
        using nd nd' before Nil by (subst add_loop.simps) (simp add: deref_live)
      then show ?thesis
        using s' before insp dist cur cc Nil en unfolding add_loop_post_def
        by (intro exI[of _ "m\<lparr>head := current, size_m := size_m m + 1\<rparr>"] exI[of _ s'] exI[of _ "current # n # post"])
           (auto simp: elems_Cons elems_Nil)
    next
      case (snoc pre' p)
      then have pn: "prev_n nd = p" "p \<noteq> 0" using nd' pre by auto
      from add_in_mezzo_dll[of s "head m" pre' p n post current cd m] d dist cur cc snoc
      obtain s' where s': "add_in_mezzo m s current n = Inr (m\<lparr>size_m := size_m m + 1\<rparr>, s')"
        "dll (cells s') (head m) 0 (pre' @ p # current # n # post) 0"
        "elems (cells s') (pre' @ p # current # n # post) = elems (cells s) (pre' @ [p]) @ e cd # elems (cells s) (n # post)"
        "\<forall>a. a \<noteq> n \<longrightarrow> a \<noteq> p \<longrightarrow> a \<noteq> current \<longrightarrow> cells s' a = cells s a" "free s' = free s"
        by auto
      have "add_loop m s r c current n = Some (add_in_mezzo m s current n)"
        using nd nd' before pn by (subst add_loop.simps) (simp add: deref_live)
      then show ?thesis
        using s' before insp dist cur cc snoc en unfolding add_loop_post_def
        by (intro exI[of _ "m\<lparr>size_m := size_m m + 1\<rparr>"] exI[of _ s'] exI[of _ "pre' @ p # current # n # post"])
           (auto simp: elems_Cons elems_Nil elems_append)
    qed
  next
    case same
    from aggiorna_dll[of s "head m" pre n post current cd m] d dist cur cc
    obtain s' where s': "aggiorna m s current n = Inr (m, s')"
      "dll (cells s') (head m) 0 (pre @ n # post) 0"
      "elems (cells s') (pre @ n # post) = elems (cells s) pre @ (elem_at (cells s) n)\<lparr>dato := dato (e cd)\<rparr> # elems (cells s) post"
      "\<forall>a. a \<noteq> n \<longrightarrow> a \<noteq> current \<longrightarrow> cells s' a = cells s a" "cells s' current = None"
      "free s' = current # free s"
      by auto
    have "add_loop m s r c current n = Some (aggiorna m s current n)"
      using nd nd' same by (subst add_loop.simps) (simp add: deref_live)
    then show ?thesis
      using s' same insp dist cur cc en unfolding add_loop_post_def
      by (intro exI[of _ m] exI[of _ s'] exI[of _ "pre @ n # post"]) (auto simp: elems_Nil)
  next
    case after
    have nx: "next_n nd = 0" using nd' after by (simp add: dll_null)
    from add_in_coda_dll[of s "head m" pre n current cd m] d dist cur cc after
    obtain s' where s': "add_in_coda m s current n = Inr (m\<lparr>size_m := size_m m + 1\<rparr>, s')"
      "dll (cells s') (head m) 0 (pre @ [n, current]) 0"
      "elems (cells s') (pre @ [n, current]) = elems (cells s) (pre @ [n]) @ [e cd]"
      "\<forall>a. a \<noteq> n \<longrightarrow> a \<noteq> current \<longrightarrow> cells s' a = cells s a" "free s' = free s"
      by auto
    have "add_loop m s r c current n = Some (add_in_coda m s current n)"
      using nd nd' nx after by (subst add_loop.simps) (auto simp add: deref_live passed_def)
    then show ?thesis
      using s' after insp dist cur cc en unfolding add_loop_post_def
      by (intro exI[of _ "m\<lparr>size_m := size_m m + 1\<rparr>"] exI[of _ s'] exI[of _ "pre @ [n, current]"])
         (auto simp: elems_Nil elems_append elems_Cons passed_def)
  qed
qed

lemma add_loop_correct:
  assumes "dll (cells s) (head m) 0 (pre @ n # post) 0"
    and "distinct (pre @ n # post)"
    and "current \<notin> set (pre @ n # post)" "current \<noteq> 0"
    and "cells s current = Some cd" "e cd = \<lparr>riga = r, colonna = c, dato = v\<rparr>"
    and "\<forall>a\<in>set pre. passed r c (elem_at (cells s) a)"
  shows "\<exists>m' s' as'. add_loop m s r c current n = Some (Inr (m', s')) \<and>
     add_loop_post m s r c v current (pre @ n # post) m' s' as'"
  using assms
proof (induction post arbitrary: pre n)
  case Nil
  from dll_mid[OF Nil.prems(1)] obtain nd where "cells s n = Some nd" by auto
  then show ?case using add_loop_step[OF Nil.prems, of nd] by simp
next
  case (Cons n' post)
  from dll_mid[OF Cons.prems(1)] obtain nd where
    nd: "cells s n = Some nd" "n \<noteq> 0" "next_n nd = n'" "n' \<noteq> 0"
    by (auto split: option.splits)
  show ?case
  proof (cases "passed r c (e nd)")
    case False
    then show ?thesis using add_loop_step[OF Cons.prems nd(1)] by simp
  next
    case True
    have en: "elem_at (cells s) n = e nd" using nd by (simp add: elem_at_def)
    have step: "add_loop m s r c current n = add_loop m s r c current n'"
      using nd True by (subst add_loop.simps) (auto simp: deref_live passed_def)
    have "\<exists>m' s' as'. add_loop m s r c current n' = Some (Inr (m', s')) \<and>
        add_loop_post m s r c v current ((pre @ [n]) @ n' # post) m' s' as'"
      using Cons.prems True en by (intro Cons.IH) auto
    then show ?thesis using step by simp
  qed
qed

lemma store_ok_hd:
  assumes "store_ok s" "free s = a0 # fs"
  shows "a0 \<noteq> 0" "a0 \<notin> set fs" "cells s a0 = None" "distinct fs" "0 \<notin> set fs"
    "\<forall>a\<in>set fs. cells s a = None"
  using assms by (auto simp: store_ok_def list_all_iff)

lemma fatal_Some_Inr: "fatal (Some (Inr x)) = Some (Inr x)"
  by (simp add: fatal_def)

lemma add_correct:
  assumes ok: "store_ok s" and ch: "chain m s as"
    and pre: "0 < r" "r \<le> righe m" "0 < c" "c \<le> colonne m" "v \<noteq> D m"
    and fr: "free s = a0 # fs"
  shows "\<exists>m' s' as'. add m s r c v = Some (Inr (m', s')) \<and> chain m' s' as' \<and> store_ok s' \<and>
      elems (cells s') as' = ins r c v (elems (cells s) as) \<and>
      righe m' = righe m \<and> colonne m' = colonne m \<and> D m' = D m \<and>
      (\<forall>a. a \<notin> set as \<longrightarrow> a \<noteq> a0 \<longrightarrow> cells s' a = cells s a) \<and>
      ((set as' = insert a0 (set as) \<and> free s' = fs \<and> size_m m' = size_m m + 1 \<and>
          length as' = Suc (length as)) \<or>
       (as' = as \<and> free s' = free s \<and> size_m m' = size_m m))"
proof -
  note h = store_ok_hd[OF ok fr]
  let ?nd = "\<lparr>e = \<lparr>riga = r, colonna = c, dato = v\<rparr>, next_n = 0, prev_n = 0\<rparr>"
  let ?s1 = "s\<lparr>cells := (cells s)(a0 \<mapsto> ?nd), free := fs\<rparr>"
  have nn: "new_node ?nd s = Some (a0, ?s1)" using fr by (simp add: new_node_def)
  from ch have d: "dll (cells s) (head m) 0 as 0" and dist: "distinct as"
    by (simp_all add: chain_def)
  have a0as: "a0 \<notin> set as" using dll_live[OF d, of a0] h(3) by blast
  have d1: "dll (cells ?s1) (head m) 0 as 0" using d a0as by (simp add: dll_upd_notin)
  have el1: "elems (cells ?s1) as = elems (cells s) as" using a0as by (simp add: elems_upd_notin)
  show ?thesis
  proof (cases "head m = 0")
    case True
    then have asn: "as = []" using d by (simp add: dll_null)
    have "add m s r c v = Some (Inr (m\<lparr>head := a0, size_m := size_m m + 1\<rparr>, ?s1))"
      using pre nn True by (simp add: add_def)
    then show ?thesis using asn h
      by (intro exI[of _ "m\<lparr>head := a0, size_m := size_m m + 1\<rparr>"] exI[of _ ?s1] exI[of _ "[a0]"])
         (auto simp: chain_def store_ok_def elems_def elem_at_def list_all_iff)
  next
    case False
    then obtain n post where asn: "as = n # post" using d by (cases as) auto
    from add_loop_correct[of ?s1 m "[]" n post a0 ?nd r c v] d1 dist a0as h asn
    obtain m' s' as' where r: "add_loop m ?s1 r c a0 (head m) = Some (Inr (m', s'))"
      and post: "add_loop_post m ?s1 r c v a0 as m' s' as'"
      by auto
    have run: "add m s r c v = Some (Inr (m', s'))"
      using pre nn False r by (simp add: add_def fatal_def)
    from post have fr': "\<forall>a. a \<notin> set as \<longrightarrow> a \<noteq> a0 \<longrightarrow> cells s' a = cells s a"
      by (auto simp: add_loop_post_def)
    have fsn: "\<forall>a\<in>set fs. cells s' a = None"
    proof
      fix a assume a: "a \<in> set fs"
      then have "cells s a = None" "a \<noteq> a0" using h by auto
      moreover then have "a \<notin> set as" using dll_live[OF d, of a] by blast
      ultimately show "cells s' a = None" using fr' by simp
    qed
    from post consider
      (new) "set as' = insert a0 (set as)" "distinct as'" "free s' = fs" "size_m m' = size_m m + 1"
      | (upd) "as' = as" "free s' = a0 # fs" "cells s' a0 = None" "size_m m' = size_m m"
      by (auto simp: add_loop_post_def)
    then show ?thesis
    proof cases
      case new
      have "card (set as') = Suc (card (set as))" using new(1) a0as by simp
      then have len: "length as' = Suc (length as)"
        using new(2) dist by (simp add: distinct_card)
      have sok: "store_ok s'" using new h fsn
        by (auto simp: store_ok_def list_all_iff)
      show ?thesis using run post new len sok el1 fr'
        by (intro exI[of _ m'] exI[of _ s'] exI[of _ as']) (auto simp: add_loop_post_def chain_def)
    next
      case upd
      have sok: "store_ok s'" using upd h fsn
        by (auto simp: store_ok_def list_all_iff)
      show ?thesis using run post upd fr sok el1 dist fr'
        by (intro exI[of _ m'] exI[of _ s'] exI[of _ as']) (auto simp: add_loop_post_def chain_def)
    qed
  qed
qed

lemma lookup_loop_correct:
  "dll (cells s) p pr as 0 \<Longrightarrow> lookup_loop s d r c p = Some (Inr (alookup d r c (elems (cells s) as)))"
proof (induction as arbitrary: p pr)
  case Nil
  then show ?case by (subst lookup_loop.simps) (simp add: elems_Nil)
next
  case (Cons a as)
  then obtain nd where nd: "p = a" "a \<noteq> 0" "cells s a = Some nd" "dll (cells s) (next_n nd) a as 0"
    by (auto split: option.splits)
  show ?case
  proof (cases "next_n nd = 0")
    case True
    then have "as = []" using nd by (simp add: dll_null)
    then show ?thesis using nd True
      by (subst lookup_loop.simps) (simp add: deref_live elems_Cons elems_Nil elem_at_def)
  next
    case False
    then show ?thesis using nd Cons.IH[OF nd(4)]
      by (subst lookup_loop.simps) (simp add: deref_live elems_Cons elem_at_def)
  qed
qed

lemma lookup_correct:
  assumes "chain m s as" "0 < r" "r \<le> righe m" "0 < c" "c \<le> colonne m"
  shows "lookup m s r c = Some (Inr (alookup (D m) r c (elems (cells s) as)))"
  using assms lookup_loop_correct[of s "head m" 0 as]
  by (simp add: lookup_def chain_def)

section \<open>The invariant of the matrix\<close>

lemma alookup_ins_same: "alookup d r c (ins r c v xs) = v"
  by (induction xs) auto

lemma alookup_ins_other:
  "(r', c') \<noteq> (r, c) \<Longrightarrow> alookup d r' c' (ins r c v xs) = alookup d r' c' xs"
  by (induction xs) auto

lemma key_set_ins: "key ` set (ins r c v xs) = insert (r, c) (key ` set xs)"
  by (induction xs) (auto simp: key_def)

lemma less_key: "((r, c) < key x) = (r < riga x \<or> r = riga x \<and> c < colonna x)"
  by (auto simp: key_def less_prod_def)

lemma key_less: "(key x < (r, c)) = passed r c x"
  by (auto simp: key_def less_prod_def passed_def)

lemma ascending_Cons: "ascending (x # xs) = ((\<forall>y\<in>set xs. key x < key y) \<and> ascending xs)"
  by (simp add: ascending_def)

lemma ascending_ins: "ascending xs \<Longrightarrow> ascending (ins r c v xs)"
proof (induction xs)
  case Nil
  then show ?case by (simp add: ascending_def)
next
  case (Cons x xs)
  then have asc: "ascending xs" and lt: "\<forall>y\<in>set xs. key x < key y"
    by (simp_all add: ascending_Cons)
  let ?n = "\<lparr>riga = r, colonna = c, dato = v\<rparr>"
  have kn: "key ?n = (r, c)" by (simp add: key_def)
  consider (before) "(r, c) < key x" | (same) "(r, c) = key x" | (after) "key x < (r, c)"
    by (metis less_linear)
  then show ?case
  proof cases
    case before
    then have "\<forall>y\<in>set (x # xs). key ?n < key y" using lt kn by auto
    then have "ascending (?n # x # xs)"
      using Cons.prems by (subst ascending_Cons) simp
    then show ?thesis using before by (simp add: less_key)
  next
    case same
    have k: "key (x\<lparr>dato := v\<rparr>) = key x" by (simp add: key_def)
    have "ascending (x\<lparr>dato := v\<rparr> # xs)" using asc lt k by (simp add: ascending_Cons)
    then show ?thesis using same by (auto simp: key_def)
  next
    case after
    have "\<forall>y\<in>set (ins r c v xs). key x < key y"
    proof
      fix y assume "y \<in> set (ins r c v xs)"
      then have "key y \<in> insert (r, c) (key ` set xs)" using key_set_ins[of r c v xs] by blast
      then show "key x < key y" using after lt by auto
    qed
    then have "ascending (x # ins r c v xs)" using Cons.IH[OF asc] by (simp add: ascending_Cons)
    moreover have "ins r c v (x # xs) = x # ins r c v xs"
      using after by (auto simp: key_def less_prod_def)
    ultimately show ?thesis by simp
  qed
qed

lemma alookup_absent: "(r, c) \<notin> key ` set xs \<Longrightarrow> alookup d r c xs = d"
  by (induction xs) (auto simp: key_def)

lemma length_ins:
  "ascending xs \<Longrightarrow> length (ins r c v xs) = (if (r, c) \<in> key ` set xs then length xs else Suc (length xs))"
proof (induction xs)
  case Nil
  then show ?case by simp
next
  case (Cons x xs)
  then have asc: "ascending xs" and lt: "\<forall>y\<in>set xs. key x < key y"
    by (simp_all add: ascending_Cons)
  show ?case
  proof (cases "(r, c) < key x")
    case True
    then have "(r, c) \<noteq> key x" by simp
    moreover have "(r, c) \<notin> key ` set xs" using True lt by fastforce
    ultimately show ?thesis using True by (simp add: less_key)
  next
    case False
    then show ?thesis using Cons.IH[OF asc]
      by (auto simp: less_key key_def)
  qed
qed

lemma in_range_ins:
  "list_all (in_range m) xs \<Longrightarrow> 0 < r \<Longrightarrow> r \<le> righe m \<Longrightarrow> 0 < c \<Longrightarrow> c \<le> colonne m \<Longrightarrow>
   list_all (in_range m) (ins r c v xs)"
  by (induction xs) (auto simp: in_range_def)

lemma in_range_cong:
  "righe m' = righe m \<Longrightarrow> colonne m' = colonne m \<Longrightarrow> in_range m' = in_range m"
  by (auto simp: in_range_def fun_eq_iff)

lemma add_inv:
  assumes inv: "matrix_inv m s as"
    and pre: "0 < r" "r \<le> righe m" "0 < c" "c \<le> colonne m" "v \<noteq> D m"
    and fr: "free s = a0 # fs"
  shows "\<exists>m' s' as'. add m s r c v = Some (Inr (m', s')) \<and> matrix_inv m' s' as' \<and>
      elems (cells s') as' = ins r c v (elems (cells s) as) \<and>
      righe m' = righe m \<and> colonne m' = colonne m \<and> D m' = D m \<and>
      (\<forall>a. a \<notin> set as \<longrightarrow> a \<noteq> a0 \<longrightarrow> cells s' a = cells s a) \<and>
      ((set as' = insert a0 (set as) \<and> free s' = fs \<and> size_m m' = size_m m + 1 \<and>
          length as' = Suc (length as)) \<or>
       (as' = as \<and> free s' = free s \<and> size_m m' = size_m m))"
proof -
  from inv have ok: "store_ok s" and ch: "chain m s as" and sz: "size_m m = of_nat (length as)"
    and dims: "0 < righe m" "0 < colonne m"
    and asc: "ascending (elems (cells s) as)" and rng: "list_all (in_range m) (elems (cells s) as)"
    by (simp_all add: matrix_inv_def)
  from add_correct[OF ok ch pre fr] obtain m' s' as' where
    r: "add m s r c v = Some (Inr (m', s'))" "chain m' s' as'" "store_ok s'"
      "elems (cells s') as' = ins r c v (elems (cells s) as)"
      "righe m' = righe m" "colonne m' = colonne m" "D m' = D m"
      "\<forall>a. a \<notin> set as \<longrightarrow> a \<noteq> a0 \<longrightarrow> cells s' a = cells s a"
    and alt: "(set as' = insert a0 (set as) \<and> free s' = fs \<and> size_m m' = size_m m + 1 \<and>
          length as' = Suc (length as)) \<or>
       (as' = as \<and> free s' = free s \<and> size_m m' = size_m m)"
    by blast
  have sz': "size_m m' = of_nat (length as')" using alt sz by auto
  have "matrix_inv m' s' as'"
    using r sz' dims ascending_ins[OF asc] in_range_ins[OF rng pre(1-4)]
    by (simp add: matrix_inv_def in_range_cong[OF r(5) r(6)])
  then show ?thesis using r alt by blast
qed

section \<open>Sequences of calls keep the invariant\<close>

lemma dll_cong:
  "(\<forall>a\<in>set as. h' a = h a) \<Longrightarrow> dll h' p pr as q = dll h p pr as q"
  by (induction as arbitrary: p pr) (auto split: option.splits)

lemma elems_cong:
  "(\<forall>a\<in>set as. h' a = h a) \<Longrightarrow> elems h' as = elems h as"
  by (simp add: elems_def elem_at_def)

lemma chain_live: "chain m s as \<Longrightarrow> a \<in> set as \<Longrightarrow> cells s a \<noteq> None"
  using dll_live by (auto simp: chain_def)

lemma chain_not_free:
  assumes "store_ok s" "chain m s as"
  shows "set as \<inter> set (free s) = {}"
proof -
  have "a \<notin> set (free s)" if "a \<in> set as" for a
    using chain_live[OF assms(2) that] assms(1) by (auto simp: store_ok_def list_all_iff)
  then show ?thesis by blast
qed

text \<open>add: what it touches\<close>
lemma add_inv_frame:
  assumes inv: "matrix_inv m s as"
    and pre: "0 < r" "r \<le> righe m" "0 < c" "c \<le> colonne m" "v \<noteq> D m"
    and fr: "free s \<noteq> []"
  shows "\<exists>m' s' as'. add m s r c v = Some (Inr (m', s')) \<and> matrix_inv m' s' as' \<and>
      elems (cells s') as' = ins r c v (elems (cells s) as) \<and>
      righe m' = righe m \<and> colonne m' = colonne m \<and> D m' = D m \<and>
      (\<forall>a. a \<notin> set as \<longrightarrow> a \<notin> set (free s) \<longrightarrow> cells s' a = cells s a) \<and>
      set as' \<union> set (free s') = set as \<union> set (free s) \<and>
      length as' + length (free s') = length as + length (free s) \<and>
      length (free s) \<le> Suc (length (free s'))"
proof -
  from fr obtain a0 fs where f: "free s = a0 # fs" by (cases "free s") auto
  from add_inv[OF inv pre f] obtain m' s' as' where
    r: "add m s r c v = Some (Inr (m', s'))" "matrix_inv m' s' as'"
      "elems (cells s') as' = ins r c v (elems (cells s) as)"
      "righe m' = righe m" "colonne m' = colonne m" "D m' = D m"
      "\<forall>a. a \<notin> set as \<longrightarrow> a \<noteq> a0 \<longrightarrow> cells s' a = cells s a"
    and alt: "(set as' = insert a0 (set as) \<and> free s' = fs \<and> size_m m' = size_m m + 1 \<and>
          length as' = Suc (length as)) \<or>
       (as' = as \<and> free s' = free s \<and> size_m m' = size_m m)"
    by blast
  show ?thesis using r alt f
    by (intro exI[of _ m'] exI[of _ s'] exI[of _ as']) auto
qed

text \<open>iterators\<close>
lemma advance_dll:
  "dll (cells s) p pr as 0 \<Longrightarrow> k < length as \<Longrightarrow> advance s \<lparr>it_n = p\<rparr> k = Inr \<lparr>it_n = as ! k\<rparr>"
proof (induction k arbitrary: p pr as)
  case 0
  then show ?case by (cases as) auto
next
  case (Suc k)
  then obtain a as' where as: "as = a # as'" by (cases as) auto
  with Suc.prems obtain nd where nd: "p = a" "a \<noteq> 0" "cells s a = Some nd"
      "dll (cells s) (next_n nd) a as' 0"
    by (auto split: option.splits)
  show ?case using Suc.IH[OF nd(4)] Suc.prems(2) nd as
    by (simp add: iterator_incr_def deref_def and_then_def)
qed

lemma write_inv:
  assumes inv: "matrix_inv m s as" and k: "k < length as"
  shows "\<exists>s'. apply_op (m, s) (Write k v) = Some (Inr (m, s')) \<and> matrix_inv m s' as \<and>
      elems (cells s') as = abs_op (Write k v) (elems (cells s) as) \<and>
      (\<forall>a. a \<notin> set as \<longrightarrow> cells s' a = cells s a) \<and> free s' = free s"
proof -
  from inv have ch: "dll (cells s) (head m) 0 as 0" "distinct as" and ok: "store_ok s"
    by (simp_all add: matrix_inv_def chain_def)
  let ?a = "as ! k"
  have ain: "?a \<in> set as" using k by simp
  then obtain nd where nd: "cells s ?a = Some nd" using dll_live[OF ch(1)] by blast
  have a0: "?a \<noteq> 0" using dll_nonzero[OF ch(1)] ain by metis
  let ?s' = "s\<lparr>cells := (cells s)(?a \<mapsto> nd\<lparr>e := (e nd)\<lparr>dato := v\<rparr>\<rparr>)\<rparr>"
  have run: "apply_op (m, s) (Write k v) = Some (Inr (m, ?s'))"
    using advance_dll[OF ch(1) k] nd a0
    by (simp add: begin_it_def iterator_write_def set_dato_def deref_def and_then_def fatal_def)
  have d': "dll (cells ?s') (head m) 0 as 0"
  proof -
    have "\<And>p pr q. dll ((cells s)(?a \<mapsto> nd\<lparr>e := (e nd)\<lparr>dato := v\<rparr>\<rparr>)) p pr as q = dll (cells s) p pr as q"
      for as :: "addr list"
    proof (induction as)
      case Nil
      then show ?case by simp
    next
      case (Cons b bs)
      then show ?case using nd by (auto split: option.splits)
    qed
    then show ?thesis using ch(1) by simp
  qed
  have el: "elems (cells ?s') as = (elems (cells s) as)[k := (elems (cells s) as ! k)\<lparr>dato := v\<rparr>]"
    using k ch(2) nd
    by (auto simp: elems_def elem_at_def list_eq_iff_nth_eq nth_list_update nth_eq_iff_index_eq)
  have keys: "map key (elems (cells ?s') as) = map key (elems (cells s) as)"
  proof -
    have "key ((elems (cells s) as ! k)\<lparr>dato := v\<rparr>) = map key (elems (cells s) as) ! k"
      using k by (simp add: key_def elems_def)
    then show ?thesis unfolding el by (simp add: map_update)
  qed
  have rng: "list_all (in_range m) (elems (cells ?s') as)"
  proof -
    let ?xs = "elems (cells s) as"
    have all: "\<forall>x\<in>set ?xs. in_range m x" using inv by (simp add: matrix_inv_def list_all_iff)
    have "?xs ! k \<in> set ?xs" using k by (simp add: elems_def)
    then have "in_range m ((?xs ! k)\<lparr>dato := v\<rparr>)" using all by (simp add: in_range_def)
    moreover have "set (?xs[k := (?xs ! k)\<lparr>dato := v\<rparr>]) \<subseteq> insert ((?xs ! k)\<lparr>dato := v\<rparr>) (set ?xs)"
      by (rule set_update_subset_insert)
    ultimately show ?thesis unfolding el using all by (auto simp: list_all_iff)
  qed
  have ok': "store_ok ?s'"
    using ok nd by (auto simp: store_ok_def list_all_iff)
  have "matrix_inv m ?s' as"
    using inv d' ch(2) keys rng ok' by (simp add: matrix_inv_def chain_def ascending_def)
  then show ?thesis using run el ain
    by (intro exI[of _ ?s']) auto
qed

lemma add_Inr_pre:
  "add m s r c v = Some (Inr x) \<Longrightarrow>
   0 < r \<and> r \<le> righe m \<and> 0 < c \<and> c \<le> colonne m \<and> v \<noteq> D m \<and> free s \<noteq> []"
  by (auto simp: add_def new_node_def split: if_splits list.splits)

lemma advance_end:
  "dll (cells s) p pr as 0 \<Longrightarrow> advance s \<lparr>it_n = p\<rparr> (length as) = Inr \<lparr>it_n = 0\<rparr>"
proof (induction as arbitrary: p pr)
  case Nil
  then show ?case by simp
next
  case (Cons a as)
  then obtain nd where nd: "p = a" "a \<noteq> 0" "cells s a = Some nd"
      "dll (cells s) (next_n nd) a as 0"
    by (auto split: option.splits)
  show ?case using Cons.IH[OF nd(4)] nd
    by (simp add: iterator_incr_def deref_def and_then_def)
qed

lemma advance_add:
  "advance s it (j + k) = and_then (advance s it j) (\<lambda>it1. advance s it1 k)"
  by (induction j arbitrary: it) (auto simp: and_then_def split: sum.splits)

lemma write_beyond:
  assumes "dll (cells s) (head m) 0 as 0" "length as \<le> k"
  shows "\<exists>f. apply_op (m, s) (Write k v) = Some (Inl (Fatal f))"
proof -
  obtain j where k: "k = length as + j" using assms(2) le_Suc_ex by blast
  have "advance s (begin_it m) k = advance s \<lparr>it_n = 0\<rparr> j"
    unfolding k advance_add using advance_end[OF assms(1)]
    by (simp add: begin_it_def and_then_def)
  moreover have "advance s \<lparr>it_n = 0\<rparr> j = Inr \<lparr>it_n = 0\<rparr> \<or> advance s \<lparr>it_n = 0\<rparr> j = Inl InvalidAccess"
    by (cases j) (simp_all add: iterator_incr_def deref_def and_then_def)
  ultimately show ?thesis
    by (auto simp: fatal_def and_then_def iterator_write_def set_dato_def deref_def)
qed

lemma apply_op_inv:
  assumes inv: "matrix_inv m s as" and r: "apply_op (m, s) x = Some (Inr (m', s'))"
  shows "\<exists>as'. matrix_inv m' s' as' \<and> elems (cells s') as' = abs_op x (elems (cells s) as) \<and>
      righe m' = righe m \<and> colonne m' = colonne m \<and>
      D m' = (case x of SetDefault d \<Rightarrow> d | _ \<Rightarrow> D m) \<and>
      (\<forall>a. a \<notin> set as \<longrightarrow> a \<notin> set (free s) \<longrightarrow> cells s' a = cells s a) \<and>
      set as' \<union> set (free s') = set as \<union> set (free s) \<and>
      length as' + length (free s') = length as + length (free s)"
proof (cases x)
  case (Add r c v)
  with r have a: "add m s r c v = Some (Inr (m', s'))" by simp
  from add_Inr_pre[OF a] add_inv_frame[OF inv, of r c v] a
  show ?thesis using Add by auto
next
  case (SetDefault d)
  with r have "m' = m\<lparr>D := d\<rparr>" "s' = s" by (simp_all add: set_default_def)
  then show ?thesis using inv SetDefault
    by (intro exI[of _ as]) (simp add: matrix_inv_def chain_def in_range_cong[of "m\<lparr>D := d\<rparr>" m])
next
  case (Write k v)
  have ch: "dll (cells s) (head m) 0 as 0" using inv by (simp add: matrix_inv_def chain_def)
  have k: "k < length as"
  proof (rule ccontr)
    assume "\<not> k < length as"
    then obtain f where "apply_op (m, s) (Write k v) = Some (Inl (Fatal f))"
      using write_beyond[OF ch, of k v] by auto
    with r Write show False by simp
  qed
  from write_inv[OF inv k, of v] r Write show ?thesis
    by (intro exI[of _ as]) auto
qed

lemma run_inv:
  assumes "matrix_inv m s as" "run (m, s) ops = Some (Inr (m', s'))"
  shows "\<exists>as'. matrix_inv m' s' as' \<and> elems (cells s') as' = fold abs_op ops (elems (cells s) as) \<and>
      righe m' = righe m \<and> colonne m' = colonne m \<and> D m' = last_default (D m) ops \<and>
      (\<forall>a. a \<notin> set as \<longrightarrow> a \<notin> set (free s) \<longrightarrow> cells s' a = cells s a) \<and>
      set as' \<union> set (free s') = set as \<union> set (free s) \<and>
      length as' + length (free s') = length as + length (free s)"
  using assms
proof (induction ops arbitrary: m s as)
  case Nil
  then show ?case by auto
next
  case (Cons x ops)
  from Cons.prems(2) obtain m1 s1 where
    st: "apply_op (m, s) x = Some (Inr (m1, s1))" and rest: "run (m1, s1) ops = Some (Inr (m', s'))"
    by (auto split: option.splits sum.splits)
  from apply_op_inv[OF Cons.prems(1) st] obtain as1 where
    a1: "matrix_inv m1 s1 as1" "elems (cells s1) as1 = abs_op x (elems (cells s) as)"
      "righe m1 = righe m" "colonne m1 = colonne m"
      "\<forall>a. a \<notin> set as \<longrightarrow> a \<notin> set (free s) \<longrightarrow> cells s1 a = cells s a"
      "set as1 \<union> set (free s1) = set as \<union> set (free s)"
      "length as1 + length (free s1) = length as + length (free s)"
      "D m1 = (case x of SetDefault d \<Rightarrow> d | _ \<Rightarrow> D m)"
    by blast
  from Cons.IH[OF a1(1) rest] obtain as' where
    a2: "matrix_inv m' s' as'" "elems (cells s') as' = fold abs_op ops (elems (cells s1) as1)"
      "righe m' = righe m1" "colonne m' = colonne m1"
      "\<forall>a. a \<notin> set as1 \<longrightarrow> a \<notin> set (free s1) \<longrightarrow> cells s' a = cells s1 a"
      "set as' \<union> set (free s') = set as1 \<union> set (free s1)"
      "length as' + length (free s') = length as1 + length (free s1)"
      "D m' = last_default (D m1) ops"
    by blast
  have dd: "D m' = last_default (D m) (x # ops)"
    using a1(8) a2(8) by (cases x) simp_all
  have "\<forall>a. a \<notin> set as \<longrightarrow> a \<notin> set (free s) \<longrightarrow> cells s' a = cells s a"
    using a1(5,6) a2(5) by (metis UnE UnI1 UnI2)
  then show ?case using a1(1-7) a2(1-7) dd
    by (intro exI[of _ as']) auto
qed

lemma fold_abs_lookup:
  "\<forall>x\<in>set ops. \<not> is_write x \<Longrightarrow>
   alookup d r c (fold abs_op ops xs) =
     (case last_add r c ops of Some v \<Rightarrow> v | None \<Rightarrow> alookup d r c xs)"
proof (induction ops arbitrary: xs)
  case Nil
  then show ?case by simp
next
  case (Cons x ops)
  then show ?case
    by (cases x) (auto simp: alookup_ins_same alookup_ins_other split: option.splits)
qed

lemma map_key_write: "map key (xs[k := (xs ! k)\<lparr>dato := v\<rparr>]) = map key xs"
proof (cases "k < length xs")
  case True
  then have "key ((xs ! k)\<lparr>dato := v\<rparr>) = map key xs ! k" by (simp add: key_def)
  then show ?thesis by (simp add: map_update)
next
  case False
  then have "xs[k := (xs ! k)\<lparr>dato := v\<rparr>] = xs" by (simp add: list_update_beyond)
  then show ?thesis by simp
qed

lemma fold_abs_keys:
  "key ` set (fold abs_op ops xs) = key ` set xs \<union> set (add_positions ops)"
proof (induction ops arbitrary: xs)
  case Nil
  then show ?case by simp
next
  case (Cons x ops)
  show ?case
  proof (cases x)
    case (Add r c v)
    then show ?thesis using Cons.IH[of "ins r c v xs"] by (auto simp: key_set_ins)
  next
    case (SetDefault d)
    then show ?thesis using Cons.IH[of xs] by simp
  next
    case (Write k v)
    have "key ` set (xs[k := (xs ! k)\<lparr>dato := v\<rparr>]) = key ` set xs"
      using map_key_write[of xs k v] by (metis set_map)
    then show ?thesis using Cons.IH[of "xs[k := (xs ! k)\<lparr>dato := v\<rparr>]"] Write by simp
  qed
qed

lemma fresh_store_ok: "store_ok (fresh_store n)"
  by (simp add: store_ok_def fresh_store_def list_all_iff)

lemma ascending_distinct: "ascending xs \<Longrightarrow> distinct (map key xs)"
  by (simp add: ascending_def strict_sorted_iff)

lemma ascending_length: "ascending xs \<Longrightarrow> length xs = card (key ` set xs)"
  using distinct_card[OF ascending_distinct, of xs] by simp

lemma ctor_Inr:
  "SparseMatrix_ctor R C d = Inr m0 \<Longrightarrow>
   m0 = \<lparr>head = 0, righe = R, colonne = C, size_m = 0, D = d\<rparr> \<and> 0 < R \<and> 0 < C"
  by (auto simp: SparseMatrix_ctor_def split: if_splits)

lemma ctor_inv:
  "SparseMatrix_ctor R C d = Inr m0 \<Longrightarrow> store_ok s0 \<Longrightarrow> matrix_inv m0 s0 []"
  by (auto dest!: ctor_Inr simp: matrix_inv_def chain_def elems_def ascending_def)

lemma add_free_length:
  assumes inv: "matrix_inv m s as"
    and pre: "0 < r" "r \<le> righe m" "0 < c" "c \<le> colonne m" "v \<noteq> D m"
    and fr: "free s \<noteq> []"
  shows "\<exists>m' s' as'. add m s r c v = Some (Inr (m', s')) \<and> matrix_inv m' s' as' \<and>
      righe m' = righe m \<and> colonne m' = colonne m \<and> D m' = D m \<and>
      length (free s) \<le> Suc (length (free s'))"
proof -
  from fr obtain a0 fs where f: "free s = a0 # fs" by (cases "free s") auto
  from add_inv[OF inv pre f] show ?thesis using f by fastforce
qed

lemma run_total:
  assumes "calls_ok R C d ops" "matrix_inv m s as" "righe m = R" "colonne m = C" "D m = d"
    "length ops \<le> length (free s)"
  shows "\<exists>m' s'. run (m, s) ops = Some (Inr (m', s'))"
  using assms
proof (induction ops arbitrary: m s as d)
  case Nil
  then show ?case by simp
next
  case (Cons x ops)
  show ?case
  proof (cases x)
    case (Add r c v)
    have fr: "free s \<noteq> []" using Cons.prems(6) by auto
    from Cons.prems Add have pre: "0 < r" "r \<le> righe m" "0 < c" "c \<le> colonne m" "v \<noteq> D m"
      and ok: "calls_ok R C d ops" by auto
    from add_free_length[OF Cons.prems(2) pre fr] obtain m1 s1 as1 where
      a: "add m s r c v = Some (Inr (m1, s1))" "matrix_inv m1 s1 as1"
        "righe m1 = righe m" "colonne m1 = colonne m" "D m1 = D m"
        "length (free s) \<le> Suc (length (free s1))"
      by blast
    have "length ops \<le> length (free s1)" using a(6) Cons.prems(6) by simp
    from Cons.IH[OF ok a(2) _ _ _ this] a Cons.prems
    show ?thesis using Add by simp
  next
    case (SetDefault d')
    have inv': "matrix_inv (set_default m d') s as"
      using Cons.prems(2)
      by (simp add: set_default_def matrix_inv_def chain_def in_range_cong[of "m\<lparr>D := d'\<rparr>" m])
    from Cons.prems SetDefault have ok: "calls_ok R C d' ops" by simp
    from Cons.IH[OF ok inv'] Cons.prems
    show ?thesis using SetDefault by (simp add: set_default_def)
  next
    case (Write k v)
    then show ?thesis using Cons.prems by simp
  qed
qed

section \<open>Traversal\<close>

lemma iterate_loop_correct:
  "dll (cells s) p pr as 0 \<Longrightarrow>
   iterate_loop s \<lparr>it_n = p\<rparr> \<lparr>it_n = 0\<rparr> acc = Some (Inr (acc @ elems (cells s) as))"
proof (induction as arbitrary: p pr acc)
  case Nil
  then show ?case by (subst iterate_loop.simps) (simp add: iterator_neq_def elems_Nil)
next
  case (Cons a as)
  then obtain nd where nd: "p = a" "a \<noteq> 0" "cells s a = Some nd"
      "dll (cells s) (next_n nd) a as 0"
    by (auto split: option.splits)
  show ?case using Cons.IH[OF nd(4), of "acc @ [e nd]"] nd
    by (subst iterate_loop.simps)
       (simp add: iterator_neq_def iterator_deref_def iterator_incr_def deref_def and_then_def
          elems_Cons elem_at_def)
qed

lemma iterate_correct:
  "chain m s as \<Longrightarrow> iterate m s = Some (Inr (elems (cells s) as))"
  using iterate_loop_correct[of s "head m" 0 as "[]"]
  by (simp add: iterate_def chain_def begin_it_def end_it_def)

lemma alookup_stored:
  "distinct (map key xs) \<Longrightarrow> x \<in> set xs \<Longrightarrow> alookup d (riga x) (colonna x) xs = dato x"
proof (induction xs)
  case Nil
  then show ?case by simp
next
  case (Cons y ys)
  then show ?case by (auto simp: key_def image_iff)
qed

lemma iterate_run:
  assumes ctor: "SparseMatrix_ctor R C d = Inr m0" and st: "store_ok s0"
    and run: "run (m0, s0) ops = Some (Inr (m, s))"
  shows "\<exists>xs. iterate m s = Some (Inr xs) \<and> ascending xs \<and>
     key ` set xs = set (add_positions ops) \<and>
     (\<forall>x\<in>set xs. lookup m s (riga x) (colonna x) = Some (Inr (dato x))) \<and>
     size_m m = of_nat (length xs)"
proof -
  note inv0 = ctor_inv[OF ctor st]
  from run_inv[OF inv0 run] obtain as where
    inv: "matrix_inv m s as" and el: "elems (cells s) as = fold abs_op ops []"
    by (auto simp: elems_def)
  let ?xs = "elems (cells s) as"
  have ch: "chain m s as" and asc: "ascending ?xs" and sz: "size_m m = of_nat (length as)"
    and rng: "list_all (in_range m) ?xs"
    using inv by (simp_all add: matrix_inv_def)
  have it: "iterate m s = Some (Inr ?xs)" by (rule iterate_correct[OF ch])
  have keys: "key ` set ?xs = set (add_positions ops)"
    unfolding el using fold_abs_keys[of ops "[]"] by simp
  have len: "length ?xs = length as" by (simp add: elems_def)
  have lk: "\<forall>x\<in>set ?xs. lookup m s (riga x) (colonna x) = Some (Inr (dato x))"
  proof
    fix x assume x: "x \<in> set ?xs"
    then have "in_range m x" using rng by (simp add: list_all_iff)
    then show "lookup m s (riga x) (colonna x) = Some (Inr (dato x))"
      using lookup_correct[OF ch, of "riga x" "colonna x"]
        alookup_stored[OF ascending_distinct[OF asc] x]
      by (simp add: in_range_def)
  qed
  show ?thesis
    using it asc keys lk sz len by (intro exI[of _ ?xs]) simp
qed

section \<open>More cells than the counter holds\<close>

lemma calls_ok_map_adds:
  "(\<forall>k\<in>set ks. 0 < fr k \<and> fr k \<le> R \<and> 0 < fc k \<and> fc k \<le> C) \<Longrightarrow> v \<noteq> d \<Longrightarrow>
   calls_ok R C d (map (\<lambda>k. Add (fr k) (fc k) v) ks)"
  by (induction ks) auto

lemma add_positions_map:
  "add_positions (map (\<lambda>k. Add (fr k) (fc k) v) ks) = map (\<lambda>k. (fr k, fc k)) ks"
  by (induction ks) auto

lemma wide_positions_inj:
  "inj_on (\<lambda>k. (1 + int k div 2147483647, 1 + int k mod 2147483647)) A"
proof (rule inj_onI)
  fix j k :: nat
  assume "(1 + int j div 2147483647, 1 + int j mod 2147483647)
        = (1 + int k div 2147483647, 1 + int k mod 2147483647)"
  then have "int j div 2147483647 = int k div 2147483647" "int j mod 2147483647 = int k mod 2147483647"
    by simp_all
  then have "int j = int k" by (metis div_mult_mod_eq)
  then show "j = k" by simp
qed

lemma wide_adds_run:
  "\<exists>m s xs. run (wide_M, fresh_store 4294967296) wide_adds = Some (Inr (m, s)) \<and>
     iterate m s = Some (Inr xs) \<and> length xs = 4294967296 \<and> get_size m = 0"
proof -
  let ?fr = "\<lambda>k. 1 + int k div 2147483647" and ?fc = "\<lambda>k. 1 + int k mod 2147483647"
  have c: "SparseMatrix_ctor 3 2147483647 (0::int) = Inr wide_M"
    by (simp add: SparseMatrix_ctor_def wide_M_def)
  have s: "store_ok (fresh_store 4294967296 :: int store)" by (rule fresh_store_ok)
  have rng: "\<forall>k\<in>set [0..<4294967296]. 0 < ?fr k \<and> ?fr k \<le> 3 \<and> 0 < ?fc k \<and> ?fc k \<le> 2147483647"
  proof
    fix k :: nat assume "k \<in> set [0..<4294967296]"
    then have k: "int k < 4294967296" by simp
    have "0 \<le> int k div 2147483647" by simp
    moreover have "int k div 2147483647 \<le> 2" using k by linarith
    moreover have "0 \<le> int k mod 2147483647" "int k mod 2147483647 < 2147483647" by simp_all
    ultimately show "0 < ?fr k \<and> ?fr k \<le> 3 \<and> 0 < ?fc k \<and> ?fc k \<le> 2147483647" by linarith
  qed
  have ok: "calls_ok 3 2147483647 0 wide_adds"
    unfolding wide_adds_def by (rule calls_ok_map_adds[OF rng]) simp
  have len: "length wide_adds \<le> length (free (fresh_store 4294967296 :: int store))"
    by (simp add: wide_adds_def fresh_store_def)
  from run_total[OF ok ctor_inv[OF c s] _ _ _ len] obtain m s where
    r: "run (wide_M, fresh_store 4294967296) wide_adds = Some (Inr (m, s))"
    by (auto simp: wide_M_def)
  from iterate_run[OF c s r] obtain xs where
    xs: "iterate m s = Some (Inr xs)" "ascending xs" "key ` set xs = set (add_positions wide_adds)"
      "size_m m = of_nat (length xs)"
    by blast
  have "distinct (map (\<lambda>k. (?fr k, ?fc k)) [0..<4294967296])"
    by (simp add: distinct_map wide_positions_inj)
  from distinct_card[OF this]
  have "card (set (add_positions wide_adds)) = 4294967296"
    unfolding wide_adds_def add_positions_map by simp
  then have l: "length xs = 4294967296"
    using ascending_length[OF xs(2)] xs(3) by simp
  have "get_size m = 0" using xs(4) l by (simp add: get_size_def)
  then show ?thesis using r xs(1) l by blast
qed

lemma last_default_map_adds:
  "last_default d (map (\<lambda>k. Add (fr k) (fc k) v) ks) = d"
  by (induction ks) auto

lemma wide_range:
  assumes "k < 4294967296"
  shows "0 < 1 + int k div 2147483647 \<and> 1 + int k div 2147483647 \<le> 3 \<and>
         0 < 1 + int k mod 2147483647 \<and> 1 + int k mod 2147483647 \<le> 2147483647"
proof -
  have k: "int k < 4294967296" using assms by simp
  have "0 \<le> int k div 2147483647" by simp
  moreover have "int k div 2147483647 \<le> 2" using k by linarith
  moreover have "0 \<le> int k mod 2147483647" "int k mod 2147483647 < 2147483647" by simp_all
  ultimately show ?thesis by linarith
qed

lemma wide_adds_butlast:
  "butlast wide_adds =
     map (\<lambda>k. Add (1 + int k div 2147483647) (1 + int k mod 2147483647) 1) [0..<4294967295]"
proof -
  have "[0..<4294967296] = [0..<4294967295] @ [4294967295]"
    using upt_Suc_append[of 0 4294967295] by simp
  then show ?thesis by (simp add: wide_adds_def)
qed

lemma wide_last_add:
  "\<exists>m s m' s'. run (wide_M, fresh_store 4294967296) (butlast wide_adds) = Some (Inr (m, s)) \<and>
     add m s 3 2 1 = Some (Inr (m', s')) \<and>
     (3, 2) \<notin> set (add_positions (butlast wide_adds)) \<and>
     unat (get_size m) = 4294967295 \<and> unat (get_size m') = 0"
proof -
  let ?fr = "\<lambda>k. 1 + int k div 2147483647" and ?fc = "\<lambda>k. 1 + int k mod 2147483647"
  let ?ops = "butlast wide_adds"
  have c: "SparseMatrix_ctor 3 2147483647 (0::int) = Inr wide_M"
    by (simp add: SparseMatrix_ctor_def wide_M_def)
  have s: "store_ok (fresh_store 4294967296 :: int store)" by (rule fresh_store_ok)
  have rng: "\<forall>k\<in>set [0..<4294967295]. 0 < ?fr k \<and> ?fr k \<le> 3 \<and> 0 < ?fc k \<and> ?fc k \<le> 2147483647"
    using wide_range by simp
  have ok: "calls_ok 3 2147483647 0 ?ops"
    unfolding wide_adds_butlast by (rule calls_ok_map_adds[OF rng]) simp
  have len: "length ?ops \<le> length (free (fresh_store 4294967296 :: int store))"
    by (simp add: wide_adds_butlast fresh_store_def)
  note inv0 = ctor_inv[OF c s]
  from run_total[OF ok inv0 _ _ _ len] obtain m s where
    r: "run (wide_M, fresh_store 4294967296) ?ops = Some (Inr (m, s))"
    by (auto simp: wide_M_def)
  from run_inv[OF inv0 r] obtain as where
    inv: "matrix_inv m s as" and el: "elems (cells s) as = fold abs_op ?ops []"
    and dims: "righe m = 3" "colonne m = 2147483647" and dd: "D m = 0"
    and fl: "length as + length (free s) = 4294967296"
    by (auto simp: elems_def wide_M_def fresh_store_def wide_adds_butlast last_default_map_adds)
  have asc: "ascending (elems (cells s) as)" and sz: "size_m m = of_nat (length as)"
    using inv by (simp_all add: matrix_inv_def)
  have keys: "key ` set (elems (cells s) as) = set (add_positions ?ops)"
    unfolding el using fold_abs_keys[of ?ops "[]"] by simp
  have pos: "add_positions ?ops = map (\<lambda>k. (?fr k, ?fc k)) [0..<4294967295]"
    unfolding wide_adds_butlast by (rule add_positions_map)
  have "distinct (map (\<lambda>k. (?fr k, ?fc k)) [0..<4294967295])"
    by (simp add: distinct_map wide_positions_inj)
  from distinct_card[OF this]
  have "card (set (add_positions ?ops)) = 4294967295" unfolding pos by simp
  then have la: "length as = 4294967295"
    using ascending_length[OF asc] keys by (simp add: elems_def)
  have new: "(3, 2) \<notin> set (add_positions ?ops)"
  proof
    assume "(3, 2) \<in> set (add_positions ?ops)"
    then obtain k where k: "k < 4294967295" "(?fr k, ?fc k) = (3, 2)" unfolding pos by auto
    have "(?fr 4294967295, ?fc 4294967295) = (3, 2)" by simp
    with k(2) have "k = 4294967295"
      using wide_positions_inj[of UNIV] by (metis (mono_tags, lifting) UNIV_I inj_onD)
    with k(1) show False by simp
  qed
  from fl la obtain a0 fs where f: "free s = a0 # fs" by (cases "free s") auto
  from add_inv[OF inv, of 3 2 1 a0 fs] dims dd f obtain m' s' as' where
    a: "add m s 3 2 1 = Some (Inr (m', s'))" "matrix_inv m' s' as'"
      "elems (cells s') as' = ins 3 2 1 (elems (cells s) as)"
    by auto
  have le: "length (elems (cells s) as) = length as" "length (elems (cells s') as') = length as'"
    by (simp_all add: elems_def)
  have "length as' = Suc (length as)"
    using length_ins[OF asc, of 3 2 1] le new unfolding a(3)[symmetric] keys by simp
  then have "size_m m' = 0" using a(2) la by (simp add: matrix_inv_def)
  moreover have "unat (size_m m) = 4294967295" using sz la by (simp add: unat_of_nat)
  ultimately show ?thesis using r a(1) new by (auto simp: get_size_def)
qed

lemma add_no_memory:
  assumes "0 < r" "r \<le> righe m" "0 < c" "c \<le> colonne m" "v \<noteq> D m" "free s = []"
  shows "add m s r c v = Some (Inl (BadAlloc (m, s)))"
  using assms by (simp add: add_def new_node_def)

lemma demo_inv1: "matrix_inv demo_I1 demo_S1 [1]"
  by (simp add: demo_I1_def demo_S1_def matrix_inv_def store_ok_def chain_def ascending_def
      elems_def elem_at_def in_range_def)

lemma fatal_neq_BadAlloc: "fatal x \<noteq> Some (Inl (BadAlloc st))"
  by (auto simp: fatal_def split: option.splits sum.splits)

lemma add_outcome:
  assumes inv: "matrix_inv m s as"
    and pre: "0 < r" "r \<le> righe m" "0 < c" "c \<le> colonne m" "v \<noteq> D m"
  shows "(\<exists>m' s'. add m s r c v = Some (Inr (m', s'))) \<or> add m s r c v = Some (Inl (BadAlloc (m, s)))"
proof (cases "free s")
  case Nil
  then show ?thesis using add_no_memory[OF pre] by simp
next
  case (Cons a0 fs)
  from add_inv[OF inv pre Cons] show ?thesis by blast
qed

section \<open>The count of evaluate\<close>

lemma evaluate_cols_correct:
  assumes ch: "chain M s as" and i: "0 < i" "i \<le> righe M" and cm: "colonne M < INT_MAX"
  shows "0 < j \<Longrightarrow> k \<le> INT_MAX \<Longrightarrow>
    evaluate_cols M s p i j k =
      Some (capped (k + int (row_count (D M) (elems (cells s) as) p i j (colonne M))))"
proof (induction "nat (colonne M + 1 - j)" arbitrary: j k)
  case 0
  then have "\<not> j \<le> colonne M" by simp
  then show ?case using 0
    by (subst evaluate_cols.simps) (simp add: get_colonne_def row_count_def capped_def)
next
  case (Suc n)
  then have jc: "j \<le> colonne M" by simp
  let ?v = "alookup (D M) i j (elems (cells s) as)"
  have lk: "lookup M s i j = Some (Inr ?v)"
    using lookup_correct[OF ch i(1,2), of j] Suc.prems jc by simp
  have ij: "incr_int j = Inr (j + 1)" using jc cm by (simp add: incr_int_def)
  have up: "[j..colonne M] = j # [j + 1..colonne M]" using jc by (rule upto_rec1)
  have n: "n = nat (colonne M + 1 - (j + 1))" using Suc(2) by simp
  have j1: "0 < j + 1" using Suc.prems by simp
  show ?case
  proof (cases "p ?v")
    case False
    have "evaluate_cols M s p i j k = evaluate_cols M s p i (j + 1) k"
      using lk ij jc False by (subst evaluate_cols.simps) (simp add: get_colonne_def)
    then show ?thesis
      using Suc(1)[OF n j1 Suc.prems(2)] False up by (simp add: row_count_def)
  next
    case True
    show ?thesis
    proof (cases "k < INT_MAX")
      case k: True
      have "evaluate_cols M s p i j k = evaluate_cols M s p i (j + 1) (k + 1)"
        using lk ij jc True k by (subst evaluate_cols.simps) (simp add: get_colonne_def incr_int_def)
      moreover have "k + 1 \<le> INT_MAX" using k by simp
      ultimately show ?thesis
        using Suc(1)[OF n j1, of "k + 1"] True up by (simp add: row_count_def add.assoc)
    next
      case k: False
      have "evaluate_cols M s p i j k = Some (Inl IntOverflow)"
        using lk jc True k by (subst evaluate_cols.simps) (simp add: get_colonne_def incr_int_def)
      then show ?thesis
        using True up k by (simp add: row_count_def capped_def)
    qed
  qed
qed

lemma evaluate_rows_correct:
  assumes ch: "chain M s as" and rm: "righe M < INT_MAX" and cm: "colonne M < INT_MAX"
  shows "0 < i \<Longrightarrow> k \<le> INT_MAX \<Longrightarrow>
    evaluate_rows M s p i k =
      Some (capped (k + int (sum_list (map (\<lambda>i'. row_count (D M) (elems (cells s) as) p i' 1 (colonne M))
                                     [i..righe M]))))"
proof (induction "nat (righe M + 1 - i)" arbitrary: i k)
  case 0
  then have "\<not> i \<le> righe M" by simp
  then show ?case using 0
    by (subst evaluate_rows.simps) (simp add: get_righe_def capped_def)
next
  case (Suc n)
  then have ir: "i \<le> righe M" by simp
  let ?rc = "\<lambda>i'. row_count (D M) (elems (cells s) as) p i' 1 (colonne M)"
  have cols: "evaluate_cols M s p i 1 k = Some (capped (k + int (?rc i)))"
    using evaluate_cols_correct[OF ch Suc.prems(1) ir cm, of 1 k p] Suc.prems by simp
  have ii: "incr_int i = Inr (i + 1)" using ir rm by (simp add: incr_int_def)
  have up: "[i..righe M] = i # [i + 1..righe M]" using ir by (rule upto_rec1)
  have n: "n = nat (righe M + 1 - (i + 1))" using Suc(2) by simp
  have i1: "0 < i + 1" using Suc.prems by simp
  show ?case
  proof (cases "k + int (?rc i) \<le> INT_MAX")
    case True
    have "evaluate_rows M s p i k = evaluate_rows M s p (i + 1) (k + int (?rc i))"
      using cols ii ir True by (subst evaluate_rows.simps) (simp add: get_righe_def capped_def)
    then show ?thesis
      using Suc(1)[OF n i1 True] up by (simp add: add.assoc)
  next
    case False
    have "evaluate_rows M s p i k = Some (Inl IntOverflow)"
      using cols ir False by (subst evaluate_rows.simps) (simp add: get_righe_def capped_def)
    then show ?thesis using False up by (simp add: capped_def)
  qed
qed

lemma length_filter_product:
  "length (filter P (List.product xs ys)) = sum_list (map (\<lambda>x. length (filter (\<lambda>y. P (x, y)) ys)) xs)"
  by (induction xs) (simp_all add: filter_map comp_def)

lemma count_matches_rows:
  assumes ch: "chain M s as" and pos: "0 < righe M" "0 < colonne M"
  shows "count_matches M s p =
     sum_list (map (\<lambda>i. row_count (D M) (elems (cells s) as) p i 1 (colonne M)) [1..righe M])"
proof -
  let ?P = "\<lambda>i j. case lookup M s i j of Some (Inr v) \<Rightarrow> p v | _ \<Rightarrow> False"
  let ?Q = "\<lambda>i j. p (alookup (D M) i j (elems (cells s) as))"
  have row: "length (filter (?P i) [1..colonne M]) = row_count (D M) (elems (cells s) as) p i 1 (colonne M)"
    if i: "i \<in> set [1..righe M]" for i
  proof -
    have "filter (?P i) [1..colonne M] = filter (?Q i) [1..colonne M]"
    proof (rule filter_cong[OF refl])
      fix j assume "j \<in> set [1..colonne M]"
      then have "lookup M s i j = Some (Inr (alookup (D M) i j (elems (cells s) as)))"
        using lookup_correct[OF ch, of i j] i by simp
      then show "?P i j = ?Q i j" by simp
    qed
    then show ?thesis by (simp only: row_count_def)
  qed
  have "count_matches M s p =
      sum_list (map (\<lambda>i. length (filter (?P i) [1..colonne M])) [1..righe M])"
    unfolding count_matches_def get_righe_def get_colonne_def
    using length_filter_product[of "\<lambda>(i, j). ?P i j" "[1..righe M]" "[1..colonne M]"]
    by (simp only: prod.case)
  also have "\<dots> = sum_list (map (\<lambda>i. row_count (D M) (elems (cells s) as) p i 1 (colonne M)) [1..righe M])"
    by (rule arg_cong[where f = sum_list], rule map_cong[OF refl], rule row)
  finally show ?thesis .
qed

lemma evaluate_correct:
  assumes inv: "matrix_inv M s as" and rm: "righe M < INT_MAX" and cm: "colonne M < INT_MAX"
  shows "evaluate M s p = Some (capped (int (count_matches M s p)))"
proof -
  have ch: "chain M s as" and pos: "0 < righe M" "0 < colonne M"
    using inv by (simp_all add: matrix_inv_def)
  show ?thesis
    using evaluate_rows_correct[OF ch rm cm, of 1 0 p] count_matches_rows[OF ch pos, of p]
    by (simp add: evaluate_def INT_MAX_def)
qed

lemma count_matches_True:
  assumes inv: "matrix_inv M s as"
  shows "count_matches M s (\<lambda>v. True) = nat (righe M) * nat (colonne M)"
proof -
  have ch: "chain M s as" and pos: "0 < righe M" "0 < colonne M"
    using inv by (simp_all add: matrix_inv_def)
  have "filter (\<lambda>(i, j). case lookup M s i j of Some (Inr v) \<Rightarrow> True | _ \<Rightarrow> False)
          (List.product [1..righe M] [1..colonne M]) = List.product [1..righe M] [1..colonne M]"
  proof (rule filter_True, clarify)
    fix i j assume "(i, j) \<in> set (List.product [1..righe M] [1..colonne M])"
    then show "case lookup M s i j of Some (Inr v) \<Rightarrow> True | _ \<Rightarrow> False"
      using lookup_correct[OF ch, of i j] by simp
  qed
  then show ?thesis
    by (simp add: count_matches_def get_righe_def get_colonne_def)
qed

lemma square_inv: "matrix_inv square_M (fresh_store 0) []"
  by (simp add: matrix_inv_def fresh_store_ok chain_def square_M_def elems_def ascending_def)

section \<open>Release, copy and conversion\<close>

lemma clear_helper_correct:
  "dll (cells s) p pr as 0 \<Longrightarrow> distinct as \<Longrightarrow>
   \<exists>s'. clear_helper s p = Some (Inr s') \<and>
     (\<forall>a. cells s' a = (if a \<in> set as then None else cells s a)) \<and>
     free s' = rev as @ free s"
proof (induction as arbitrary: s p pr)
  case Nil
  then show ?case by (subst clear_helper.simps) simp
next
  case (Cons a as)
  then obtain nd where nd: "p = a" "a \<noteq> 0" "cells s a = Some nd"
      "dll (cells s) (next_n nd) a as 0"
    by (auto split: option.splits)
  let ?s1 = "s\<lparr>cells := (cells s)(a := None), free := a # free s\<rparr>"
  have del: "delete_node a s = Inr ?s1" using nd by (simp add: delete_node_def)
  have a: "a \<notin> set as" "distinct as" using Cons.prems(2) by auto
  have d1: "dll (cells ?s1) (next_n nd) a as 0" using nd(4) a(1) by (simp add: dll_upd_notin)
  from Cons.IH[OF d1 a(2)] obtain s' where
    s': "clear_helper ?s1 (next_n nd) = Some (Inr s')"
      "\<forall>b. cells s' b = (if b \<in> set as then None else cells ?s1 b)"
      "free s' = rev as @ free ?s1"
    by blast
  have "clear_helper s p = Some (Inr s')"
    using nd del s'(1) by (subst clear_helper.simps) (simp add: deref_def)
  then show ?case using s'(2,3) by (intro exI[of _ s']) auto
qed

lemma clear_correct:
  assumes ok: "store_ok s" and ch: "chain m s as"
  shows "\<exists>s'. clear m s = Some (Inr (m\<lparr>head := 0, size_m := 0\<rparr>, s')) \<and> store_ok s' \<and>
     (\<forall>a. cells s' a = (if a \<in> set as then None else cells s a)) \<and>
     free s' = rev as @ free s"
proof -
  from ch have d: "dll (cells s) (head m) 0 as 0" and dist: "distinct as"
    by (simp_all add: chain_def)
  from clear_helper_correct[OF d dist] obtain s' where
    s': "clear_helper s (head m) = Some (Inr s')"
      "\<forall>a. cells s' a = (if a \<in> set as then None else cells s a)"
      "free s' = rev as @ free s"
    by blast
  have "store_ok s'"
    using ok dist chain_not_free[OF ok ch] dll_nonzero[OF d] s'(2,3)
    by (auto simp: store_ok_def list_all_iff)
  then show ?thesis using s' by (intro exI[of _ s']) (simp add: clear_def)
qed

lemma ascending_append_snoc:
  "ascending (xs @ [x]) \<Longrightarrow> \<forall>y\<in>set xs. passed (riga x) (colonna x) y"
  by (auto simp: ascending_def sorted_wrt_append key_less[symmetric] key_def)

lemma ins_snoc:
  "ascending (xs @ [x]) \<Longrightarrow> ins (riga x) (colonna x) (dato x) xs = xs @ [x]"
  using ins_append_passed[OF ascending_append_snoc, of xs x "dato x" "[]"] by simp

lemma ascending_prefix: "ascending (xs @ ys) \<Longrightarrow> ascending xs"
  by (simp add: ascending_def sorted_wrt_append)

lemma copy_loop_outcome:
  assumes src: "matrix_inv other s0 src"
  shows "src = pre @ rest \<Longrightarrow> copy_inv other s0 src m s bs pre \<Longrightarrow>
    dll (cells s0) tmp (last (0 # pre)) rest 0 \<Longrightarrow>
    \<exists>res. copy_loop m s tmp = Some res \<and>
      (case res of
         Inr (m', s') \<Rightarrow>
           (\<exists>bs'. copy_inv other s0 src m' s' bs' src) \<and>
           (\<forall>x\<in>set (elems (cells s0) rest). dato x \<noteq> D other)
       | Inl (BadAlloc s') \<Rightarrow>
           cells s' = cells s0 \<and> set (free s') = set (free s0) \<and> distinct (free s') \<and>
           length (free s) < length rest
       | Inl (Fatal f) \<Rightarrow> f = AssertFail \<and> (\<exists>x\<in>set (elems (cells s0) rest). dato x = D other)) \<and>
      ((\<forall>x\<in>set (elems (cells s0) rest). dato x \<noteq> D other) \<and> length rest \<le> length (free s)
         \<longrightarrow> (\<exists>st. res = Inr st))"
proof (induction rest arbitrary: pre m s bs tmp)
  case Nil
  then have "tmp = 0" by simp
  then have "copy_loop m s tmp = Some (Inr (m, s))" by (subst copy_loop.simps) simp
  then show ?case using Nil by (intro exI[of _ "Inr (m, s)"]) (auto simp: elems_def)
next
  case (Cons a rest)
  note ci = Cons.prems(2)
  from ci have inv: "matrix_inv m s bs" and same: "\<forall>b\<in>set src. cells s b = cells s0 b"
    and disj: "set bs \<inter> set src = {}" and el: "elems (cells s) bs = elems (cells s0) pre"
    and dims: "righe m = righe other" "colonne m = colonne other" "D m = D other"
    and pool: "set bs \<union> set (free s) = set (free s0)"
    and frame: "\<forall>b. b \<notin> set (free s0) \<longrightarrow> cells s b = cells s0 b"
    and lens: "length bs + length (free s) = length (free s0)"
    by (simp_all add: copy_inv_def)
  from src have ok0: "store_ok s0" and ch0: "chain other s0 src"
    and asc0: "ascending (elems (cells s0) src)"
    and rng0: "list_all (in_range other) (elems (cells s0) src)"
    by (simp_all add: matrix_inv_def)
  from inv have ok: "store_ok s" and ch: "chain m s bs" by (simp_all add: matrix_inv_def)
  from Cons.prems(3) obtain nd where nd: "tmp = a" "a \<noteq> 0" "cells s0 a = Some nd"
      "dll (cells s0) (next_n nd) a rest 0"
    by (auto split: option.splits)
  have ain: "a \<in> set src" using Cons.prems(1) by simp
  have nds: "cells s a = Some nd" using same ain nd(3) by simp
  let ?x = "e nd"
  have xe: "elem_at (cells s0) a = ?x" using nd(3) by (simp add: elem_at_def)
  have xin: "?x \<in> set (elems (cells s0) src)" using ain xe by (force simp: elems_def)
  then have xr: "in_range other ?x" using rng0 by (simp add: list_all_iff)
  have pre_r: "0 < riga ?x" "riga ?x \<le> righe m" "0 < colonna ?x" "colonna ?x \<le> colonne m"
    using xr dims by (simp_all add: in_range_def)
  have d1: "deref s tmp = Inr nd" using nd nds by (simp add: deref_def)
  show ?case
  proof (cases "dato ?x = D m")
    case True
    have "add m s (riga ?x) (colonna ?x) (dato ?x) = Some (Inl (Fatal AssertFail))"
      using True by (simp add: add_def)
    then have "copy_loop m s tmp = Some (Inl (Fatal AssertFail))"
      using d1 nd(1,2) by (subst copy_loop.simps) simp
    moreover have "\<exists>x\<in>set (elems (cells s0) (a # rest)). dato x = D other"
      using True dims xe by (auto simp: elems_def)
    ultimately show ?thesis
      by (intro exI[of _ "Inl (Fatal AssertFail)"]) auto
  next
    case nodef: False
    show ?thesis
    proof (cases "free s")
      case Nil
      have ad: "add m s (riga ?x) (colonna ?x) (dato ?x) = Some (Inl (BadAlloc (m, s)))"
        using add_no_memory[OF pre_r nodef Nil] .
      from clear_correct[OF ok ch] obtain s2 where
        s2: "clear m s = Some (Inr (m\<lparr>head := 0, size_m := 0\<rparr>, s2))" "store_ok s2"
          "\<forall>b. cells s2 b = (if b \<in> set bs then None else cells s b)"
          "free s2 = rev bs @ free s"
        by blast
      have run: "copy_loop m s tmp = Some (Inl (BadAlloc s2))"
        using d1 nd(1,2) ad s2(1) by (subst copy_loop.simps) simp
      have bsf: "set bs = set (free s0)" using pool Nil by simp
      have "cells s2 b = cells s0 b" for b
      proof (cases "b \<in> set bs")
        case True
        then have "cells s0 b = None" using bsf ok0 by (auto simp: store_ok_def list_all_iff)
        then show ?thesis using True s2(3) by simp
      next
        case False
        then show ?thesis using s2(3) frame bsf by simp
      qed
      then have c: "cells s2 = cells s0" by (rule ext)
      have f: "set (free s2) = set (free s0)" "distinct (free s2)"
        using s2(4) Nil bsf ch by (simp_all add: chain_def)
      show ?thesis using run c f Nil
        by (intro exI[of _ "Inl (BadAlloc s2)"]) simp
    next
      case (Cons a0 fs)
      then have fr: "free s \<noteq> []" by simp
      from add_inv_frame[OF inv pre_r nodef fr] obtain m1 s1 bs1 where
        a1: "add m s (riga ?x) (colonna ?x) (dato ?x) = Some (Inr (m1, s1))"
          "matrix_inv m1 s1 bs1"
          "elems (cells s1) bs1 = ins (riga ?x) (colonna ?x) (dato ?x) (elems (cells s) bs)"
          "righe m1 = righe m" "colonne m1 = colonne m" "D m1 = D m"
          "\<forall>b. b \<notin> set bs \<longrightarrow> b \<notin> set (free s) \<longrightarrow> cells s1 b = cells s b"
          "set bs1 \<union> set (free s1) = set bs \<union> set (free s)"
          "length bs1 + length (free s1) = length bs + length (free s)"
          "length (free s) \<le> Suc (length (free s1))"
        by blast
      have srcfree: "set src \<inter> set (free s0) = {}" using chain_not_free[OF ok0 ch0] .
      have same1: "\<forall>b\<in>set src. cells s1 b = cells s0 b"
      proof
        fix b assume b: "b \<in> set src"
        then have "b \<notin> set (free s0)" using srcfree by blast
        then have "b \<notin> set bs" "b \<notin> set (free s)" using pool by auto
        then show "cells s1 b = cells s0 b" using a1(7) same b by simp
      qed
      have disj1: "set bs1 \<inter> set src = {}" using a1(8) pool srcfree by blast
      have asc_pre: "ascending (elems (cells s0) pre @ [?x])"
      proof -
        have "elems (cells s0) src = (elems (cells s0) pre @ [?x]) @ elems (cells s0) rest"
          using Cons.prems(1) xe by (simp add: elems_def)
        then show ?thesis using asc0 ascending_prefix by metis
      qed
      have el1: "elems (cells s1) bs1 = elems (cells s0) (pre @ [a])"
        using a1(3) el ins_snoc[OF asc_pre] xe by (simp add: elems_def)
      have frame1: "\<forall>b. b \<notin> set (free s0) \<longrightarrow> cells s1 b = cells s0 b"
      proof (intro allI impI)
        fix b assume b: "b \<notin> set (free s0)"
        then have "b \<notin> set bs" "b \<notin> set (free s)" using pool by auto
        then show "cells s1 b = cells s0 b" using a1(7) frame b by simp
      qed
      have ci1: "copy_inv other s0 src m1 s1 bs1 (pre @ [a])"
        using a1 same1 disj1 el1 frame1 dims pool lens by (simp add: copy_inv_def)
      have d2: "deref s1 tmp = Inr nd" using nd same1 ain by (simp add: deref_def)
      have step: "copy_loop m s tmp = copy_loop m1 s1 (next_n nd)"
        using d1 d2 nd(1,2) a1(1) by (subst copy_loop.simps) simp
      have split: "src = (pre @ [a]) @ rest" using Cons.prems(1) by simp
      have dl: "dll (cells s0) (next_n nd) (last (0 # pre @ [a])) rest 0" using nd(4) by simp
      from Cons.IH[OF split ci1 dl] obtain res where
        res: "copy_loop m1 s1 (next_n nd) = Some res"
          "case res of
             Inr (m', s') \<Rightarrow>
               (\<exists>bs'. copy_inv other s0 src m' s' bs' src) \<and>
               (\<forall>x\<in>set (elems (cells s0) rest). dato x \<noteq> D other)
           | Inl (BadAlloc s') \<Rightarrow>
               cells s' = cells s0 \<and> set (free s') = set (free s0) \<and> distinct (free s') \<and>
               length (free s1) < length rest
           | Inl (Fatal f) \<Rightarrow> f = AssertFail \<and> (\<exists>x\<in>set (elems (cells s0) rest). dato x = D other)"
          "(\<forall>x\<in>set (elems (cells s0) rest). dato x \<noteq> D other) \<and> length rest \<le> length (free s1)
             \<longrightarrow> (\<exists>st. res = Inr st)"
        by blast
      have p1: "case res of
             Inr (m', s') \<Rightarrow>
               (\<exists>bs'. copy_inv other s0 src m' s' bs' src) \<and>
               (\<forall>x\<in>set (elems (cells s0) (a # rest)). dato x \<noteq> D other)
           | Inl (BadAlloc s') \<Rightarrow>
               cells s' = cells s0 \<and> set (free s') = set (free s0) \<and> distinct (free s') \<and>
               length (free s) < length (a # rest)
           | Inl (Fatal f) \<Rightarrow> f = AssertFail \<and> (\<exists>x\<in>set (elems (cells s0) (a # rest)). dato x = D other)"
        using res(2) a1(10) nodef dims xe by (auto simp: elems_def split: sum.splits error.splits)
      have p2: "(\<forall>x\<in>set (elems (cells s0) (a # rest)). dato x \<noteq> D other) \<and>
            length (a # rest) \<le> length (free s) \<longrightarrow> (\<exists>st. res = Inr st)"
        using res(3) a1(10) by (auto simp: elems_def)
      show ?thesis using step res(1) p1 p2 by (intro exI[of _ res]) simp
    qed
  qed
qed

lemma copy_inv_init:
  assumes src: "matrix_inv other s src"
  shows "copy_inv other s src
     \<lparr>head = 0, righe = righe other, colonne = colonne other, size_m = 0, D = D other\<rparr> s [] []"
  using src
  by (simp add: copy_inv_def matrix_inv_def chain_def elems_def ascending_def)

lemma copy_ctor_outcome:
  assumes src: "matrix_inv other s src"
  shows "\<exists>res. copy_ctor other s = Some res \<and>
      (case res of
         Inr (m', s') \<Rightarrow>
           (\<exists>bs'. copy_inv other s src m' s' bs' src) \<and>
           (\<forall>x\<in>set (elems (cells s) src). dato x \<noteq> D other)
       | Inl (BadAlloc s') \<Rightarrow>
           cells s' = cells s \<and> set (free s') = set (free s) \<and> distinct (free s') \<and>
           length (free s) < length src
       | Inl (Fatal f) \<Rightarrow> f = AssertFail \<and> (\<exists>x\<in>set (elems (cells s) src). dato x = D other)) \<and>
      ((\<forall>x\<in>set (elems (cells s) src). dato x \<noteq> D other) \<and> length src \<le> length (free s)
         \<longrightarrow> (\<exists>st. res = Inr st))"
proof -
  have d: "dll (cells s) (head other) (last (0 # [])) src 0"
    using src by (simp add: matrix_inv_def chain_def)
  show ?thesis
    unfolding copy_ctor_def
    using copy_loop_outcome[OF src _ copy_inv_init[OF src] d] by simp
qed

text \<open>What the invariant of the finished copy gives.\<close>

lemma copy_inv_done:
  assumes src: "matrix_inv other s src" and ci: "copy_inv other s src m' s' bs' src"
  shows "matrix_inv m' s' bs'" "matrix_inv other s' src" "set bs' \<inter> set src = {}"
    "elems (cells s') bs' = elems (cells s) src" "elems (cells s') src = elems (cells s) src"
    "size_m m' = size_m other" "righe m' = righe other" "colonne m' = colonne other"
    "D m' = D other"
proof -
  from ci show inv': "matrix_inv m' s' bs'" and disj: "set bs' \<inter> set src = {}"
    and el: "elems (cells s') bs' = elems (cells s) src"
    and "righe m' = righe other" "colonne m' = colonne other" "D m' = D other"
    by (simp_all add: copy_inv_def)
  from ci have same: "\<forall>a\<in>set src. cells s' a = cells s a" by (simp add: copy_inv_def)
  show el2: "elems (cells s') src = elems (cells s) src" using same by (rule elems_cong)
  have "dll (cells s') (head other) 0 src 0 = dll (cells s) (head other) 0 src 0"
    using same by (rule dll_cong)
  then show "matrix_inv other s' src"
    using src inv' el2 by (simp add: matrix_inv_def chain_def)
  have "length bs' = length src" using el by (metis elems_def length_map)
  then show "size_m m' = size_m other" using inv' src by (simp add: matrix_inv_def)
qed

lemma lookup_eq_elems:
  assumes "chain m s as" "chain m' s' as'" "elems (cells s') as' = elems (cells s) as"
    "righe m' = righe m" "colonne m' = colonne m" "D m' = D m"
  shows "lookup m' s' r c = lookup m s r c"
proof (cases "0 < r \<and> r \<le> righe m \<and> 0 < c \<and> c \<le> colonne m")
  case True
  then show ?thesis
    using lookup_correct[OF assms(1), of r c] lookup_correct[OF assms(2), of r c] assms(3-6)
    by simp
next
  case False
  then show ?thesis using assms(4,5) by (auto simp: lookup_def)
qed

lemma source_untouched:
  assumes src: "matrix_inv other s1 src" and same: "\<forall>a\<in>set src. cells s2 a = cells s1 a"
  shows "lookup other s2 r c = lookup other s1 r c" "iterate other s2 = iterate other s1"
proof -
  have ch1: "chain other s1 src" using src by (simp add: matrix_inv_def)
  have "dll (cells s2) (head other) 0 src 0 = dll (cells s1) (head other) 0 src 0"
    using same by (rule dll_cong)
  then have ch2: "chain other s2 src" using ch1 by (simp add: chain_def)
  have el: "elems (cells s2) src = elems (cells s1) src" using same by (rule elems_cong)
  show "lookup other s2 r c = lookup other s1 r c"
    using lookup_eq_elems[OF ch1 ch2 el] by simp
  show "iterate other s2 = iterate other s1"
    using iterate_correct[OF ch1] iterate_correct[OF ch2] el by simp
qed


lemma case_state_D:
  "(case x of Some (Inr (a, b)) \<Rightarrow> P a b | _ \<Rightarrow> False) \<Longrightarrow> \<exists>a b. x = Some (Inr (a, b)) \<and> P a b"
  by (auto split: option.splits sum.splits)

lemma case_value_D:
  "(case x of Some (Inr v) \<Rightarrow> P v | _ \<Rightarrow> False) \<Longrightarrow> \<exists>v. x = Some (Inr v) \<and> P v"
  by (auto split: option.splits sum.splits)

lemma key_conv_elem: "key (conv_elem conv x) = key x"
  by (simp add: key_def conv_elem_def)

lemma ascending_conv: "ascending (map (conv_elem conv) xs) = ascending xs"
  by (simp add: ascending_def comp_def key_conv_elem)

lemma convert_loop_outcome:
  assumes tinv: "matrix_inv tmp sq src"
    and tdims: "righe tmp = righe other" "colonne tmp = colonne other"
    and ok0: "store_ok s0"
  shows "src = pre @ rest \<Longrightarrow> conv_inv conv other sq s0 m s bs pre \<Longrightarrow>
    dll (cells sq) p (last (0 # pre)) rest 0 \<Longrightarrow>
    \<exists>res. convert_loop conv sq m s \<lparr>it_n = p\<rparr> \<lparr>it_n = 0\<rparr> = Some res \<and>
      (case res of
         Inr (m', s') \<Rightarrow>
           (\<exists>bs'. conv_inv conv other sq s0 m' s' bs' src) \<and>
           (\<forall>x\<in>set (elems (cells sq) rest). conv (dato x) \<noteq> conv (D other))
       | Inl (BadAlloc (m1, s1)) \<Rightarrow>
           (\<exists>bs1 pre1. conv_inv conv other sq s0 m1 s1 bs1 pre1) \<and> free s1 = [] \<and>
           length (free s) < length rest
       | Inl (Fatal f) \<Rightarrow>
           f = AssertFail \<and> (\<exists>x\<in>set (elems (cells sq) rest). conv (dato x) = conv (D other))) \<and>
      ((\<forall>x\<in>set (elems (cells sq) rest). conv (dato x) \<noteq> conv (D other)) \<and>
       length rest \<le> length (free s) \<longrightarrow> (\<exists>st. res = Inr st))"
proof (induction rest arbitrary: pre m s bs p)
  case Nil
  then have "p = 0" by simp
  then have "convert_loop conv sq m s \<lparr>it_n = p\<rparr> \<lparr>it_n = 0\<rparr> = Some (Inr (m, s))"
    by (subst convert_loop.simps) (simp add: iterator_neq_def)
  then show ?case using Nil by (intro exI[of _ "Inr (m, s)"]) (auto simp: elems_def)
next
  case (Cons a rest)
  note ci = Cons.prems(2)
  from ci have inv: "matrix_inv m s bs"
    and el: "elems (cells s) bs = map (conv_elem conv) (elems (cells sq) pre)"
    and dims: "righe m = righe other" "colonne m = colonne other" "D m = conv (D other)"
    and pool: "set bs \<union> set (free s) = set (free s0)"
    and frame: "\<forall>b. b \<notin> set (free s0) \<longrightarrow> cells s b = cells s0 b"
    and lens: "length bs + length (free s) = length (free s0)"
    by (simp_all add: conv_inv_def)
  from tinv have asc0: "ascending (elems (cells sq) src)"
    and rng0: "list_all (in_range tmp) (elems (cells sq) src)"
    by (simp_all add: matrix_inv_def)
  from Cons.prems(3) obtain nd where nd: "p = a" "a \<noteq> 0" "cells sq a = Some nd"
      "dll (cells sq) (next_n nd) a rest 0"
    by (auto split: option.splits)
  have ain: "a \<in> set src" using Cons.prems(1) by simp
  let ?x = "e nd"
  have xe: "elem_at (cells sq) a = ?x" using nd(3) by (simp add: elem_at_def)
  have xin: "?x \<in> set (elems (cells sq) src)" using ain xe by (force simp: elems_def)
  then have xr: "in_range tmp ?x" using rng0 by (simp add: list_all_iff)
  have pre_r: "0 < riga ?x" "riga ?x \<le> righe m" "0 < colonna ?x" "colonna ?x \<le> colonne m"
    using xr dims tdims by (simp_all add: in_range_def)
  have d1: "iterator_deref sq \<lparr>it_n = p\<rparr> = Inr ?x"
    using nd by (simp add: iterator_deref_def deref_def and_then_def)
  have d2: "iterator_incr sq \<lparr>it_n = p\<rparr> = Inr \<lparr>it_n = next_n nd\<rparr>"
    using nd by (simp add: iterator_incr_def deref_def and_then_def)
  have neq: "iterator_neq \<lparr>it_n = p\<rparr> \<lparr>it_n = 0\<rparr>" using nd by (simp add: iterator_neq_def)
  show ?case
  proof (cases "conv (dato ?x) = D m")
    case True
    have "add m s (riga ?x) (colonna ?x) (conv (dato ?x)) = Some (Inl (Fatal AssertFail))"
      using True by (simp add: add_def)
    then have "convert_loop conv sq m s \<lparr>it_n = p\<rparr> \<lparr>it_n = 0\<rparr> = Some (Inl (Fatal AssertFail))"
      using d1 neq by (subst convert_loop.simps) simp
    moreover have "\<exists>x\<in>set (elems (cells sq) (a # rest)). conv (dato x) = conv (D other)"
      using True dims xe by (auto simp: elems_def)
    ultimately show ?thesis
      by (intro exI[of _ "Inl (Fatal AssertFail)"]) auto
  next
    case nodef: False
    show ?thesis
    proof (cases "free s")
      case Nil
      have ad: "add m s (riga ?x) (colonna ?x) (conv (dato ?x)) = Some (Inl (BadAlloc (m, s)))"
        using add_no_memory[OF pre_r nodef Nil] .
      have run: "convert_loop conv sq m s \<lparr>it_n = p\<rparr> \<lparr>it_n = 0\<rparr> = Some (Inl (BadAlloc (m, s)))"
        using d1 neq ad by (subst convert_loop.simps) simp
      show ?thesis using run ci Nil
        by (intro exI[of _ "Inl (BadAlloc (m, s))"]) auto
    next
      case (Cons a0 fs)
      then have fr: "free s \<noteq> []" by simp
      from add_inv_frame[OF inv pre_r nodef fr] obtain m1 s1 bs1 where
        a1: "add m s (riga ?x) (colonna ?x) (conv (dato ?x)) = Some (Inr (m1, s1))"
          "matrix_inv m1 s1 bs1"
          "elems (cells s1) bs1 = ins (riga ?x) (colonna ?x) (conv (dato ?x)) (elems (cells s) bs)"
          "righe m1 = righe m" "colonne m1 = colonne m" "D m1 = D m"
          "\<forall>b. b \<notin> set bs \<longrightarrow> b \<notin> set (free s) \<longrightarrow> cells s1 b = cells s b"
          "set bs1 \<union> set (free s1) = set bs \<union> set (free s)"
          "length bs1 + length (free s1) = length bs + length (free s)"
          "length (free s) \<le> Suc (length (free s1))"
        by blast
      have asc_pre: "ascending (map (conv_elem conv) (elems (cells sq) pre) @ [conv_elem conv ?x])"
      proof -
        have "elems (cells sq) src = (elems (cells sq) pre @ [?x]) @ elems (cells sq) rest"
          using Cons.prems(1) xe by (simp add: elems_def)
        then have "ascending (elems (cells sq) pre @ [?x])" using asc0 ascending_prefix by metis
        then have "ascending (map (conv_elem conv) (elems (cells sq) pre @ [?x]))"
          by (simp only: ascending_conv)
        then show ?thesis by simp
      qed
      have "ins (riga ?x) (colonna ?x) (conv (dato ?x)) (map (conv_elem conv) (elems (cells sq) pre))
          = map (conv_elem conv) (elems (cells sq) pre) @ [conv_elem conv ?x]"
        using ins_snoc[OF asc_pre] by (simp add: conv_elem_def)
      then have el1: "elems (cells s1) bs1 = map (conv_elem conv) (elems (cells sq) (pre @ [a]))"
        using a1(3) el xe by (simp add: elems_def)
      have frame1: "\<forall>b. b \<notin> set (free s0) \<longrightarrow> cells s1 b = cells s0 b"
      proof (intro allI impI)
        fix b assume b: "b \<notin> set (free s0)"
        then have "b \<notin> set bs" "b \<notin> set (free s)" using pool by auto
        then show "cells s1 b = cells s0 b" using a1(7) frame b by simp
      qed
      have ci1: "conv_inv conv other sq s0 m1 s1 bs1 (pre @ [a])"
        using a1 el1 frame1 dims pool lens by (simp add: conv_inv_def)
      have step: "convert_loop conv sq m s \<lparr>it_n = p\<rparr> \<lparr>it_n = 0\<rparr>
          = convert_loop conv sq m1 s1 \<lparr>it_n = next_n nd\<rparr> \<lparr>it_n = 0\<rparr>"
        using d1 d2 neq a1(1) by (subst convert_loop.simps) simp
      have split: "src = (pre @ [a]) @ rest" using Cons.prems(1) by simp
      have dl: "dll (cells sq) (next_n nd) (last (0 # pre @ [a])) rest 0" using nd(4) by simp
      from Cons.IH[OF split ci1 dl] obtain res where
        res: "convert_loop conv sq m1 s1 \<lparr>it_n = next_n nd\<rparr> \<lparr>it_n = 0\<rparr> = Some res"
          "case res of
             Inr (m', s') \<Rightarrow>
               (\<exists>bs'. conv_inv conv other sq s0 m' s' bs' src) \<and>
               (\<forall>x\<in>set (elems (cells sq) rest). conv (dato x) \<noteq> conv (D other))
           | Inl (BadAlloc (m1, s1')) \<Rightarrow>
               (\<exists>bs1 pre1. conv_inv conv other sq s0 m1 s1' bs1 pre1) \<and> free s1' = [] \<and>
               length (free s1) < length rest
           | Inl (Fatal f) \<Rightarrow>
               f = AssertFail \<and> (\<exists>x\<in>set (elems (cells sq) rest). conv (dato x) = conv (D other))"
          "(\<forall>x\<in>set (elems (cells sq) rest). conv (dato x) \<noteq> conv (D other)) \<and>
           length rest \<le> length (free s1) \<longrightarrow> (\<exists>st. res = Inr st)"
        by blast
      have p1: "case res of
             Inr (m', s') \<Rightarrow>
               (\<exists>bs'. conv_inv conv other sq s0 m' s' bs' src) \<and>
               (\<forall>x\<in>set (elems (cells sq) (a # rest)). conv (dato x) \<noteq> conv (D other))
           | Inl (BadAlloc (m1, s1')) \<Rightarrow>
               (\<exists>bs1 pre1. conv_inv conv other sq s0 m1 s1' bs1 pre1) \<and> free s1' = [] \<and>
               length (free s) < length (a # rest)
           | Inl (Fatal f) \<Rightarrow>
               f = AssertFail \<and> (\<exists>x\<in>set (elems (cells sq) (a # rest)). conv (dato x) = conv (D other))"
        using res(2) a1(10) nodef dims xe by (auto simp: elems_def split: sum.splits error.splits)
      have p2: "(\<forall>x\<in>set (elems (cells sq) (a # rest)). conv (dato x) \<noteq> conv (D other)) \<and>
            length (a # rest) \<le> length (free s) \<longrightarrow> (\<exists>st. res = Inr st)"
        using res(3) a1(10) by (auto simp: elems_def)
      show ?thesis using step res(1) p1 p2 by (intro exI[of _ res]) simp
    qed
  qed
qed

lemma release_restores:
  assumes ok0: "store_ok s0" and inv: "matrix_inv m s bs"
    and pool: "set bs \<union> set (free s) = set (free s0)"
    and frame: "\<forall>a. a \<notin> set (free s0) \<longrightarrow> cells s a = cells s0 a"
  shows "\<exists>s'. clear m s = Some (Inr (m\<lparr>head := 0, size_m := 0\<rparr>, s')) \<and>
     destroy m s = Some (Inr s') \<and> cells s' = cells s0 \<and> set (free s') = set (free s0) \<and>
     store_ok s'"
proof -
  from inv have ok: "store_ok s" and ch: "chain m s bs" by (simp_all add: matrix_inv_def)
  from clear_correct[OF ok ch] obtain s' where
    s': "clear m s = Some (Inr (m\<lparr>head := 0, size_m := 0\<rparr>, s'))" "store_ok s'"
      "\<forall>a. cells s' a = (if a \<in> set bs then None else cells s a)"
      "free s' = rev bs @ free s"
    by blast
  have none0: "\<And>a. a \<in> set (free s0) \<Longrightarrow> cells s0 a = None"
    using ok0 by (simp add: store_ok_def list_all_iff)
  have none: "\<And>a. a \<in> set (free s) \<Longrightarrow> cells s a = None"
    using ok by (simp add: store_ok_def list_all_iff)
  have "cells s' = cells s0"
  proof
    fix a
    show "cells s' a = cells s0 a"
    proof (cases "a \<in> set (free s0)")
      case True
      then have "a \<in> set bs \<or> a \<in> set (free s)" using pool by auto
      then have "cells s' a = None" using s'(3) none by auto
      then show ?thesis using none0[OF True] by simp
    next
      case False
      then have "a \<notin> set bs" using pool by auto
      then show ?thesis using s'(3) frame False by simp
    qed
  qed
  moreover have "set (free s') = set (free s0)" using s'(4) pool by auto
  moreover have "destroy m s = Some (Inr s')" using s'(1) by (simp add: destroy_def)
  ultimately show ?thesis using s'(1,2) by blast
qed

lemma conv_inv_init:
  assumes src: "matrix_inv other sq0 src" and ok0: "store_ok s0"
  shows "conv_inv conv other sq s0
     \<lparr>head = 0, righe = get_righe other, colonne = get_colonne other, size_m = 0,
      D = conv (get_default other)\<rparr> s0 [] []"
  using src ok0
  by (simp add: conv_inv_def matrix_inv_def chain_def elems_def ascending_def get_righe_def
      get_colonne_def get_default_def)

lemma convert_fill_outcome:
  assumes src: "matrix_inv other sq0 src" and ci: "copy_inv other sq0 src tmp sq1 ts src"
    and ok0: "store_ok s0"
  shows "\<exists>res. convert_fill conv other tmp sq1 s0 = Some res \<and>
      (case res of
         Inr (m', sq2, s') \<Rightarrow>
           (\<exists>bs'. conv_inv conv other sq0 s0 m' s' bs' src) \<and>
           (\<forall>x\<in>set (elems (cells sq0) src). conv (dato x) \<noteq> conv (D other)) \<and>
           cells sq2 = cells sq0 \<and> set (free sq2) = set (free sq0) \<and> store_ok sq2
       | Inl (BadAlloc (sq2, s2)) \<Rightarrow>
           cells sq2 = cells sq0 \<and> set (free sq2) = set (free sq0) \<and> store_ok sq2 \<and>
           cells s2 = cells s0 \<and> set (free s2) = set (free s0) \<and> store_ok s2 \<and>
           length (free s0) < length src
       | Inl (Fatal f) \<Rightarrow>
           f = AssertFail \<and>
           (\<exists>x\<in>set (elems (cells sq0) src). conv (dato x) = conv (D other))) \<and>
      ((\<forall>x\<in>set (elems (cells sq0) src). conv (dato x) \<noteq> conv (D other)) \<and>
       length src \<le> length (free s0) \<longrightarrow> (\<exists>st. res = Inr st))"
proof -
  note fin = copy_inv_done[OF src ci]
  have okq: "store_ok sq0" using src by (simp add: matrix_inv_def)
  have tinv: "matrix_inv tmp sq1 ts" by (rule fin(1))
  have el: "elems (cells sq1) ts = elems (cells sq0) src" by (rule fin(4))
  have len: "length ts = length src"
    using arg_cong[OF el, of length] by (simp add: elems_def)
  from ci have pool: "set ts \<union> set (free sq1) = set (free sq0)"
    and frame: "\<forall>a. a \<notin> set (free sq0) \<longrightarrow> cells sq1 a = cells sq0 a"
    by (simp_all add: copy_inv_def)
  from release_restores[OF okq tinv pool frame] obtain sq2 where
    sq2: "destroy tmp sq1 = Some (Inr sq2)" "cells sq2 = cells sq0"
      "set (free sq2) = set (free sq0)" "store_ok sq2"
    by blast
  let ?m0 = "\<lparr>head = 0, righe = get_righe other, colonne = get_colonne other, size_m = 0,
      D = conv (get_default other)\<rparr>"
  have ci0: "conv_inv conv other sq1 s0 ?m0 s0 [] []" by (rule conv_inv_init[OF src ok0])
  have d: "dll (cells sq1) (head tmp) (last (0 # [])) ts 0"
    using tinv by (simp add: matrix_inv_def chain_def)
  from convert_loop_outcome[OF tinv fin(7,8) ok0 _ ci0 d] obtain res where
    res: "convert_loop conv sq1 ?m0 s0 \<lparr>it_n = head tmp\<rparr> \<lparr>it_n = 0\<rparr> = Some res"
      "case res of
         Inr (m', s') \<Rightarrow>
           (\<exists>bs'. conv_inv conv other sq1 s0 m' s' bs' ts) \<and>
           (\<forall>x\<in>set (elems (cells sq1) ts). conv (dato x) \<noteq> conv (D other))
       | Inl (BadAlloc (m1, s1)) \<Rightarrow>
           (\<exists>bs1 pre1. conv_inv conv other sq1 s0 m1 s1 bs1 pre1) \<and> free s1 = [] \<and>
           length (free s0) < length ts
       | Inl (Fatal f) \<Rightarrow>
           f = AssertFail \<and> (\<exists>x\<in>set (elems (cells sq1) ts). conv (dato x) = conv (D other))"
      "(\<forall>x\<in>set (elems (cells sq1) ts). conv (dato x) \<noteq> conv (D other)) \<and>
       length ts \<le> length (free s0) \<longrightarrow> (\<exists>st. res = Inr st)"
    by auto
  show ?thesis
  proof (cases res)
    case (Inr st)
    obtain m' s' where st: "st = (m', s')" by (cases st)
    from res(2) Inr st obtain bs' where b: "conv_inv conv other sq1 s0 m' s' bs' ts"
      and nc: "\<forall>x\<in>set (elems (cells sq1) ts). conv (dato x) \<noteq> conv (D other)"
      by auto
    from b have b': "conv_inv conv other sq0 s0 m' s' bs' src"
      using el by (simp add: conv_inv_def)
    have nc': "\<forall>x\<in>set (elems (cells sq0) src). conv (dato x) \<noteq> conv (D other)"
      using nc el by simp
    have "convert_fill conv other tmp sq1 s0 = Some (Inr (m', sq2, s'))"
      using res(1) Inr st sq2(1) by (simp add: convert_fill_def begin_it_def end_it_def)
    then show ?thesis using b' nc' sq2 by (intro exI[of _ "Inr (m', sq2, s')"]) auto
  next
    case (Inl err)
    show ?thesis
    proof (cases err)
      case (Fatal f)
      have "convert_fill conv other tmp sq1 s0 = Some (Inl (Fatal f))"
        using res(1) Inl Fatal by (simp add: convert_fill_def begin_it_def end_it_def)
      then show ?thesis using res(2,3) Inl Fatal el
        by (intro exI[of _ "Inl (Fatal f)"]) auto
    next
      case (BadAlloc st)
      obtain m1 s1 where st: "st = (m1, s1)" by (cases st)
      from res(2) Inl BadAlloc st obtain bs1 pre1 where
        b: "conv_inv conv other sq1 s0 m1 s1 bs1 pre1" and short: "length (free s0) < length ts"
        by auto
      from b have inv1: "matrix_inv m1 s1 bs1"
        and pool1: "set bs1 \<union> set (free s1) = set (free s0)"
        and frame1: "\<forall>a. a \<notin> set (free s0) \<longrightarrow> cells s1 a = cells s0 a"
        by (simp_all add: conv_inv_def)
      from release_restores[OF ok0 inv1 pool1 frame1] obtain s2 where
        s2: "clear m1 s1 = Some (Inr (m1\<lparr>head := 0, size_m := 0\<rparr>, s2))" "cells s2 = cells s0"
          "set (free s2) = set (free s0)" "store_ok s2"
        by blast
      have "convert_fill conv other tmp sq1 s0 = Some (Inl (BadAlloc (sq2, s2)))"
        using res(1) Inl BadAlloc st s2(1) sq2(1)
        by (simp add: convert_fill_def begin_it_def end_it_def)
      then show ?thesis using s2 sq2 short len
        by (intro exI[of _ "Inl (BadAlloc (sq2, s2))"]) auto
    qed
  qed
qed


lemma demo_copy: "copy_ctor demo_I1 demo_S1 = Some (Inr (demo_tmp, demo_S2))"
  by (simp add: copy_ctor_def copy_loop.simps demo_I1_def demo_S1_def demo_tmp_def demo_S2_def
      deref_def add_def new_node_def add_loop.simps add_in_testa_def add_in_mezzo_def
      aggiorna_def add_in_coda_def and_then_def set_next_def set_prev_def set_dato_def
      delete_node_def fun_upd_twist)


lemma deref_default: "iterator_deref s iterator_default = Inl InvalidAccess"
  by (simp add: iterator_deref_def iterator_default_def deref_def and_then_def)



lemma convert_ctor_probe:
  "copy_ctor other sq = Some (Inr (tmp, sq1)) \<Longrightarrow>
   convert_ctor conv other sq s = Some (Inl (Fatal InvalidAccess))"
  by (simp add: convert_ctor_def deref_default)

section \<open>Which calls abort\<close>

lemma evaluate_cols_total:
  assumes ch: "chain M s as" and i: "0 < i" "i \<le> righe M"
  shows "0 < j \<Longrightarrow>
    \<exists>res. evaluate_cols M s p i j k = Some res \<and> (res = Inl IntOverflow \<or> (\<exists>n. res = Inr n))"
proof (induction "nat (INT_MAX - j)" arbitrary: j k rule: less_induct)
  case less
  show ?case
  proof (cases "j \<le> colonne M")
    case False
    then have "evaluate_cols M s p i j k = Some (Inr k)"
      by (subst evaluate_cols.simps) (simp add: get_colonne_def)
    then show ?thesis by simp
  next
    case jc: True
    let ?v = "alookup (D M) i j (elems (cells s) as)"
    have lk: "lookup M s i j = Some (Inr ?v)"
      using lookup_correct[OF ch i(1,2), of j] less.prems jc by simp
    show ?thesis
    proof (cases "p ?v \<and> \<not> k < INT_MAX")
      case True
      then have "evaluate_cols M s p i j k = Some (Inl IntOverflow)"
        using lk jc by (subst evaluate_cols.simps) (simp add: get_colonne_def incr_int_def)
      then show ?thesis by simp
    next
      case kk: False
      define k1 where "k1 = (if p ?v then k + 1 else k)"
      have c1: "(if p ?v then incr_int k else Inr k) = Inr k1"
        using kk by (auto simp: incr_int_def k1_def)
      show ?thesis
      proof (cases "j < INT_MAX")
        case False
        then have "evaluate_cols M s p i j k = Some (Inl IntOverflow)"
          using lk jc c1 by (subst evaluate_cols.simps) (simp add: get_colonne_def incr_int_def)
        then show ?thesis by simp
      next
        case True
        then have st: "evaluate_cols M s p i j k = evaluate_cols M s p i (j + 1) k1"
          using lk jc c1 by (subst evaluate_cols.simps) (simp add: get_colonne_def incr_int_def)
        have "nat (INT_MAX - (j + 1)) < nat (INT_MAX - j)" using True by simp
        from less.hyps[OF this, of k1] less.prems show ?thesis unfolding st by simp
      qed
    qed
  qed
qed

lemma evaluate_rows_total:
  assumes ch: "chain M s as"
  shows "0 < i \<Longrightarrow>
    \<exists>res. evaluate_rows M s p i k = Some res \<and> (res = Inl IntOverflow \<or> (\<exists>n. res = Inr n))"
proof (induction "nat (INT_MAX - i)" arbitrary: i k rule: less_induct)
  case less
  show ?case
  proof (cases "i \<le> righe M")
    case False
    then have "evaluate_rows M s p i k = Some (Inr k)"
      by (subst evaluate_rows.simps) (simp add: get_righe_def)
    then show ?thesis by simp
  next
    case ir: True
    from evaluate_cols_total[OF ch less.prems ir, of 1 p k] obtain res where
      res: "evaluate_cols M s p i 1 k = Some res" "res = Inl IntOverflow \<or> (\<exists>n. res = Inr n)"
      by auto
    show ?thesis
    proof (cases res)
      case (Inl err)
      then have "evaluate_rows M s p i k = Some (Inl IntOverflow)"
        using res ir by (subst evaluate_rows.simps) (auto simp: get_righe_def)
      then show ?thesis by simp
    next
      case (Inr k1)
      show ?thesis
      proof (cases "i < INT_MAX")
        case False
        then have "evaluate_rows M s p i k = Some (Inl IntOverflow)"
          using res(1) Inr ir by (subst evaluate_rows.simps) (simp add: get_righe_def incr_int_def)
        then show ?thesis by simp
      next
        case True
        then have st: "evaluate_rows M s p i k = evaluate_rows M s p (i + 1) k1"
          using res(1) Inr ir by (subst evaluate_rows.simps) (simp add: get_righe_def incr_int_def)
        have "nat (INT_MAX - (i + 1)) < nat (INT_MAX - i)" using True by simp
        from less.hyps[OF this, of k1] less.prems show ?thesis unfolding st by simp
      qed
    qed
  qed
qed

lemma evaluate_total:
  assumes "chain M s as"
  shows "\<exists>res. evaluate M s p = Some res \<and> (res = Inl IntOverflow \<or> (\<exists>n. res = Inr n))"
  unfolding evaluate_def using evaluate_rows_total[OF assms, of 1 p 0] by simp

lemma copy_abort_iff:
  assumes src: "matrix_inv other s src"
  shows "(copy_ctor other s = Some (Inl (Fatal f)) \<longrightarrow>
            f = AssertFail \<and> (\<exists>x\<in>set (elems (cells s) src). dato x = D other)) \<and>
         ((\<forall>x\<in>set (elems (cells s) src). dato x \<noteq> D other) \<longrightarrow>
            (\<exists>st. copy_ctor other s = Some (Inr st)) \<or>
            (\<exists>s'. copy_ctor other s = Some (Inl (BadAlloc s')))) \<and>
         (length src \<le> length (free s) \<longrightarrow>
            (copy_ctor other s = Some (Inl (Fatal AssertFail)) \<longleftrightarrow>
               (\<exists>x\<in>set (elems (cells s) src). dato x = D other)))"
proof -
  from copy_ctor_outcome[OF src] obtain res where
    res: "copy_ctor other s = Some res"
      "case res of
         Inr (m', s') \<Rightarrow>
           (\<exists>bs'. copy_inv other s src m' s' bs' src) \<and>
           (\<forall>x\<in>set (elems (cells s) src). dato x \<noteq> D other)
       | Inl (BadAlloc s') \<Rightarrow>
           cells s' = cells s \<and> set (free s') = set (free s) \<and> distinct (free s') \<and>
           length (free s) < length src
       | Inl (Fatal f) \<Rightarrow> f = AssertFail \<and> (\<exists>x\<in>set (elems (cells s) src). dato x = D other)"
    by blast
  show ?thesis
  proof (cases res)
    case (Inr st)
    then show ?thesis using res by (cases st) auto
  next
    case (Inl err)
    then show ?thesis using res by (cases err) auto
  qed
qed

lemma convert_fill_abort_iff:
  assumes src: "matrix_inv other sq src" and c: "copy_ctor other sq = Some (Inr (tmp, sq1))"
    and ok: "store_ok t"
  shows "(convert_fill conv other tmp sq1 t = Some (Inl (Fatal f)) \<longrightarrow>
            f = AssertFail \<and> (\<exists>x\<in>set (elems (cells sq) src). conv (dato x) = conv (D other))) \<and>
         (length src \<le> length (free t) \<longrightarrow>
            (convert_fill conv other tmp sq1 t = Some (Inl (Fatal AssertFail)) \<longleftrightarrow>
               (\<exists>x\<in>set (elems (cells sq) src). conv (dato x) = conv (D other))))"
proof -
  from copy_ctor_outcome[OF src] c obtain ts where ci: "copy_inv other sq src tmp sq1 ts src"
    by auto
  from convert_fill_outcome[OF src ci ok, of conv] obtain res where
    res: "convert_fill conv other tmp sq1 t = Some res"
      "case res of
         Inr (m', sq2, s') \<Rightarrow>
           (\<exists>bs'. conv_inv conv other sq t m' s' bs' src) \<and>
           (\<forall>x\<in>set (elems (cells sq) src). conv (dato x) \<noteq> conv (D other)) \<and>
           cells sq2 = cells sq \<and> set (free sq2) = set (free sq) \<and> store_ok sq2
       | Inl (BadAlloc (sq2, s2)) \<Rightarrow>
           cells sq2 = cells sq \<and> set (free sq2) = set (free sq) \<and> store_ok sq2 \<and>
           cells s2 = cells t \<and> set (free s2) = set (free t) \<and> store_ok s2 \<and>
           length (free t) < length src
       | Inl (Fatal f) \<Rightarrow>
           f = AssertFail \<and>
           (\<exists>x\<in>set (elems (cells sq) src). conv (dato x) = conv (D other))"
    by blast
  show ?thesis
  proof (cases res)
    case (Inr st)
    then show ?thesis using res by (cases st) auto
  next
    case (Inl err)
    then show ?thesis using res by (cases err) auto
  qed
qed

lemma run_outcome:
  assumes "calls_ok R C d ops" "matrix_inv m s as" "righe m = R" "colonne m = C" "D m = d"
  shows "(\<exists>st. run (m, s) ops = Some (Inr st)) \<or> (\<exists>st. run (m, s) ops = Some (Inl (BadAlloc st)))"
  using assms
proof (induction ops arbitrary: m s as d)
  case Nil
  then show ?case by simp
next
  case (Cons x ops)
  show ?case
  proof (cases x)
    case (Add r c v)
    from Cons.prems Add have pre: "0 < r" "r \<le> righe m" "0 < c" "c \<le> colonne m" "v \<noteq> D m"
      and ok: "calls_ok R C d ops" by auto
    show ?thesis
    proof (cases "free s")
      case Nil
      then show ?thesis using add_no_memory[OF pre] Add by simp
    next
      case (Cons a0 fs)
      from add_inv[OF Cons.prems(2) pre Cons] obtain m1 s1 as1 where
        a: "add m s r c v = Some (Inr (m1, s1))" "matrix_inv m1 s1 as1"
          "righe m1 = righe m" "colonne m1 = colonne m" "D m1 = D m"
        by blast
      from Cons.IH[OF ok a(2)] a Cons.prems show ?thesis using Add by simp
    qed
  next
    case (SetDefault d')
    have inv': "matrix_inv (set_default m d') s as"
      using Cons.prems(2)
      by (simp add: set_default_def matrix_inv_def chain_def in_range_cong[of "m\<lparr>D := d'\<rparr>" m])
    from Cons.prems SetDefault have ok: "calls_ok R C d' ops" by simp
    from Cons.IH[OF ok inv'] Cons.prems
    show ?thesis using SetDefault by (simp add: set_default_def)
  next
    case (Write k v)
    then show ?thesis using Cons.prems by simp
  qed
qed

lemma demo_inv1_default: "matrix_inv (set_default demo_I1 d) demo_S1 [1]"
  using demo_inv1
  by (simp add: matrix_inv_def chain_def set_default_def in_range_cong[of "demo_I1\<lparr>D := d\<rparr>" demo_I1])

lemma demo_iterate1:
  "iterate (set_default demo_I1 d) demo_S1 = Some (Inr [\<lparr>riga = 2, colonna = 2, dato = 4\<rparr>])"
  by (simp add: iterate_def iterate_loop.simps begin_it_def end_it_def iterator_neq_def
      iterator_deref_def iterator_incr_def deref_def and_then_def demo_I1_def demo_S1_def
      set_default_def)

lemma demo_default1: "set_default demo_I1 999 = demo_I1"
  by (simp add: set_default_def demo_I1_def)

section \<open>The claims\<close>

text \<open>
  C10. On a well-formed matrix, \<open>add(r, c, v)\<close> at an in-range position with a value other
  than the default either stores the cell or throws \<open>bad_alloc\<close> and changes nothing. In
  both cases the row count, the column count and the default value are what they were,
  and \<open>operator()\<close> at every other in-range position returns the value it returned before.
\<close>

theorem add_frame:
  assumes inv: "matrix_inv m s as"
    and pre: "0 < r" "r \<le> righe m" "0 < c" "c \<le> colonne m" "v \<noteq> D m"
  shows "\<exists>m' s'. (add m s r c v = Some (Inr (m', s')) \<or> add m s r c v = Some (Inl (BadAlloc (m', s')))) \<and>
     get_righe m' = get_righe m \<and> get_colonne m' = get_colonne m \<and>
     get_default m' = get_default m \<and>
     (\<forall>r' c'. 0 < r' \<and> r' \<le> get_righe m \<and> 0 < c' \<and> c' \<le> get_colonne m \<and> (r', c') \<noteq> (r, c) \<longrightarrow>
        (\<exists>x. lookup m s r' c' = Some (Inr x) \<and> lookup m' s' r' c' = Some (Inr x)))"
proof (cases "free s")
  case Nil
  have ch: "chain m s as" using inv by (simp add: matrix_inv_def)
  show ?thesis
    using add_no_memory[OF pre Nil] lookup_correct[OF ch]
    by (intro exI[of _ m] exI[of _ s]) (simp add: get_righe_def get_colonne_def)
next
  case (Cons a0 fs)
  from add_inv[OF inv pre Cons] obtain m' s' as' where
    r: "add m s r c v = Some (Inr (m', s'))" "matrix_inv m' s' as'"
      "elems (cells s') as' = ins r c v (elems (cells s) as)"
      "righe m' = righe m" "colonne m' = colonne m" "D m' = D m"
    by blast
  have ch: "chain m s as" "chain m' s' as'" using inv r(2) by (simp_all add: matrix_inv_def)
  have "\<exists>x. lookup m s r' c' = Some (Inr x) \<and> lookup m' s' r' c' = Some (Inr x)"
    if "0 < r'" "r' \<le> righe m" "0 < c'" "c' \<le> colonne m" "(r', c') \<noteq> (r, c)" for r' c'
    using that lookup_correct[OF ch(1), of r' c'] lookup_correct[OF ch(2), of r' c'] r
    by (simp add: alookup_ins_other)
  then show ?thesis using r
    by (intro exI[of _ m'] exI[of _ s']) (simp add: get_righe_def get_colonne_def get_default_def)
qed

theorem add_frame_witness:
  "matrix_inv demo_I1 demo_S1 [1] \<and>
   (\<exists>m' s'. add demo_I1 demo_S1 1 2 2 = Some (Inr (m', s')) \<and>
      get_righe m' = 3 \<and> get_colonne m' = 2 \<and> get_default m' = 999 \<and>
      lookup m' s' 2 2 = Some (Inr 4) \<and> lookup m' s' 1 1 = Some (Inr 999)) \<and>
   lookup demo_I1 demo_S1 2 2 = Some (Inr 4) \<and> lookup demo_I1 demo_S1 1 1 = Some (Inr 999)"
proof -
  have r: "righe demo_I1 = 3" "colonne demo_I1 = 2" "D demo_I1 = 999"
    by (simp_all add: demo_I1_def)
  have nb: "add demo_I1 demo_S1 1 2 2 \<noteq> Some (Inl (BadAlloc st))" for st
    by (simp add: add_def new_node_def demo_S1_def demo_I1_def fatal_neq_BadAlloc)
  have l: "lookup demo_I1 demo_S1 2 2 = Some (Inr 4)" "lookup demo_I1 demo_S1 1 1 = Some (Inr 999)"
    by (simp_all add: lookup_def lookup_loop.simps deref_def demo_I1_def demo_S1_def)
  from add_frame[OF demo_inv1, of 1 2 2] r nb obtain m' s' where
    a: "add demo_I1 demo_S1 1 2 2 = Some (Inr (m', s'))"
      "get_righe m' = 3" "get_colonne m' = 2" "get_default m' = 999"
    and f: "\<forall>r' c'. 0 < r' \<and> r' \<le> 3 \<and> 0 < c' \<and> c' \<le> 2 \<and> (r', c') \<noteq> (1, 2) \<longrightarrow>
        (\<exists>x. lookup demo_I1 demo_S1 r' c' = Some (Inr x) \<and> lookup m' s' r' c' = Some (Inr x))"
    by (auto simp: get_righe_def get_colonne_def get_default_def)
  have "lookup m' s' 2 2 = Some (Inr 4)" "lookup m' s' 1 1 = Some (Inr 999)"
    using f[rule_format, of 2 2] f[rule_format, of 1 1] l by simp_all
  then show ?thesis using demo_inv1 a l by blast
qed

text \<open>
  C1, as amended. A matrix is constructed with valid dimensions and then receives any
  sequence of calls of \<open>add\<close> and \<open>set_default\<close>. If the calls respect the preconditions of
  \<open>add\<close> and the store has a free node for each call, the sequence runs to its end.
  Whenever it does, \<open>operator()\<close> at an in-range position returns the value of the last
  \<open>add\<close> at that position, or the current default value when no \<open>add\<close> named the
  position; \<open>size()\<close> is the number of distinct positions added, modulo \<open>2^32\<close>; and one
  more \<open>add\<close> at the position makes \<open>operator()\<close> return its value, leaves \<open>size()\<close> as it
  is when the position was added before, and otherwise increments it by one modulo
  \<open>2^32\<close>.
\<close>

theorem lookup_last_add:
  assumes ctor: "SparseMatrix_ctor R C d = Inr m0" and st: "store_ok s0"
    and nw: "\<forall>x\<in>set ops. \<not> is_write x"
    and pos: "0 < r" "r \<le> R" "0 < c" "c \<le> C"
  shows "(calls_ok R C d ops \<and> length ops \<le> length (free s0) \<longrightarrow>
            (\<exists>m s. run (m0, s0) ops = Some (Inr (m, s)))) \<and>
         (\<forall>m s. run (m0, s0) ops = Some (Inr (m, s)) \<longrightarrow>
            lookup m s r c =
              Some (Inr (case last_add r c ops of Some v \<Rightarrow> v | None \<Rightarrow> get_default m)) \<and>
            get_default m = last_default d ops \<and>
            get_size m = of_nat (length (remdups (add_positions ops))) \<and>
            (\<forall>v. v \<noteq> get_default m \<and> free s \<noteq> [] \<longrightarrow>
               (\<exists>m' s'. add m s r c v = Some (Inr (m', s')) \<and>
                  lookup m' s' r c = Some (Inr v) \<and>
                  get_size m' =
                    (if (r, c) \<in> set (add_positions ops) then get_size m else get_size m + 1) \<and>
                  unat (get_size m') =
                    (if (r, c) \<in> set (add_positions ops) then unat (get_size m)
                     else (unat (get_size m) + 1) mod 2 ^ 32))))"
proof (intro conjI impI allI)
  assume "calls_ok R C d ops \<and> length ops \<le> length (free s0)"
  then show "\<exists>m s. run (m0, s0) ops = Some (Inr (m, s))"
    using run_total[of R C d ops m0 s0 "[]"] ctor_inv[OF ctor st] ctor_Inr[OF ctor] by auto
next
  fix m s assume run: "run (m0, s0) ops = Some (Inr (m, s))"
  note inv0 = ctor_inv[OF ctor st]
  from ctor_Inr[OF ctor] have dims0: "righe m0 = R" "colonne m0 = C" by auto
  from run_inv[OF inv0 run] obtain as where
    inv: "matrix_inv m s as" and el: "elems (cells s) as = fold abs_op ops []"
    and dims: "righe m = R" "colonne m = C" and dd: "D m = last_default (D m0) ops"
    using dims0 by (auto simp: elems_def)
  show "get_default m = last_default d ops"
    using dd ctor_Inr[OF ctor] by (simp add: get_default_def)
  have ch: "chain m s as" and asc: "ascending (elems (cells s) as)"
    and sz: "size_m m = of_nat (length as)"
    using inv by (simp_all add: matrix_inv_def)
  have keys: "key ` set (elems (cells s) as) = set (add_positions ops)"
    unfolding el using fold_abs_keys[of ops "[]"] by simp
  show "lookup m s r c = Some (Inr (case last_add r c ops of Some v \<Rightarrow> v | None \<Rightarrow> get_default m))"
    using lookup_correct[OF ch, of r c] pos dims fold_abs_lookup[OF nw, of "D m" r c "[]"]
    by (simp add: el get_default_def split: option.splits)
  have len: "length as = card (set (add_positions ops))"
    using ascending_length[OF asc] keys by (simp add: elems_def)
  show "get_size m = of_nat (length (remdups (add_positions ops)))"
    using sz len by (simp add: get_size_def length_remdups_card_conv)
  fix v assume v: "v \<noteq> get_default m \<and> free s \<noteq> []"
  then obtain a0 fs where f: "free s = a0 # fs" by (cases "free s") auto
  from add_inv[OF inv, of r c v a0 fs] pos dims v f obtain m' s' as' where
    a: "add m s r c v = Some (Inr (m', s'))" "matrix_inv m' s' as'"
      "elems (cells s') as' = ins r c v (elems (cells s) as)"
      "righe m' = righe m" "colonne m' = colonne m"
    by (auto simp: get_default_def)
  have ch': "chain m' s' as'" and sz': "size_m m' = of_nat (length as')"
    using a(2) by (simp_all add: matrix_inv_def)
  have l: "lookup m' s' r c = Some (Inr v)"
    using lookup_correct[OF ch', of r c] pos dims a by (simp add: alookup_ins_same)
  have le: "length (elems (cells s) as) = length as" "length (elems (cells s') as') = length as'"
    by (simp_all add: elems_def)
  have "length as' = (if (r, c) \<in> set (add_positions ops) then length as else Suc (length as))"
    using length_ins[OF asc, of r c v] le unfolding a(3)[symmetric] keys by simp
  then have g: "get_size m' = (if (r, c) \<in> set (add_positions ops) then get_size m else get_size m + 1)"
    using sz sz' by (simp add: get_size_def)
  have "unat (get_size m + 1) = (unat (get_size m) + 1) mod 2 ^ 32"
    by (simp add: unat_word_ariths)
  then have "unat (get_size m') =
      (if (r, c) \<in> set (add_positions ops) then unat (get_size m)
       else (unat (get_size m) + 1) mod 2 ^ 32)"
    using g by simp
  then show "\<exists>m' s'. add m s r c v = Some (Inr (m', s')) \<and> lookup m' s' r c = Some (Inr v) \<and>
      get_size m' = (if (r, c) \<in> set (add_positions ops) then get_size m else get_size m + 1) \<and>
      unat (get_size m') =
        (if (r, c) \<in> set (add_positions ops) then unat (get_size m)
         else (unat (get_size m) + 1) mod 2 ^ 32)"
    using a(1) l g by blast
qed

theorem lookup_last_add_witness:
  "SparseMatrix_ctor 3 2 (999::int) = Inr demo_I \<and> store_ok (fresh_store 4 :: int store) \<and>
   calls_ok 3 2 999 demo_adds \<and> length demo_adds \<le> length (free (fresh_store 4 :: int store)) \<and>
   (case run (demo_I, fresh_store 4) demo_adds of
      Some (Inr (m, s)) \<Rightarrow>
        lookup m s 2 2 = Some (Inr 5) \<and> lookup m s 1 2 = Some (Inr 2) \<and>
        lookup m s 1 1 = Some (Inr 999) \<and> get_size m = 2
    | _ \<Rightarrow> False)"
proof -
  have c: "SparseMatrix_ctor 3 2 (999::int) = Inr demo_I"
    by (simp add: SparseMatrix_ctor_def demo_I_def)
  have s: "store_ok (fresh_store 4 :: int store)"
    by (rule fresh_store_ok)
  have nw: "\<forall>x\<in>set demo_adds. \<not> is_write x"
    by (simp add: demo_adds_def)
  have ok: "calls_ok 3 2 999 demo_adds" "length demo_adds \<le> length (free (fresh_store 4 :: int store))"
    by (simp_all add: demo_adds_def fresh_store_def)
  from lookup_last_add[OF c s nw, of 2 2] ok obtain m s where
    r: "run (demo_I, fresh_store 4) demo_adds = Some (Inr (m, s))" by auto
  have "lookup m s 2 2 = Some (Inr 5)" "get_size m = 2"
    using lookup_last_add[OF c s nw, of 2 2] r by (simp_all add: demo_adds_def)
  moreover have "lookup m s 1 2 = Some (Inr 2)"
    using lookup_last_add[OF c s nw, of 1 2] r by (simp add: demo_adds_def)
  moreover have "lookup m s 1 1 = Some (Inr 999)"
    using lookup_last_add[OF c s nw, of 1 1] r by (simp add: demo_adds_def)
  ultimately show ?thesis using c s ok r by simp
qed

text \<open>C1 as stated fails where the counter wraps: after \<open>2^32 - 1\<close> calls of \<open>add\<close> at
  distinct positions \<open>size()\<close> is \<open>2^32 - 1\<close>, and the first \<open>add\<close> at one more position
  makes it 0.\<close>

theorem size_increment_wraps:
  "case run (wide_M, fresh_store 4294967296) (butlast wide_adds) of
     Some (Inr (m, s)) \<Rightarrow>
       (case add m s 3 2 1 of
          Some (Inr (m', s')) \<Rightarrow>
            (3, 2) \<notin> set (add_positions (butlast wide_adds)) \<and>
            unat (get_size m) = 4294967295 \<and> unat (get_size m') = 0
        | _ \<Rightarrow> False)
   | _ \<Rightarrow> False"
  using wide_last_add by auto

text \<open>
  C2, as amended. After any sequence of calls that ran to its end on a freshly
  constructed matrix, the traversal from \<open>begin()\<close> to \<open>end()\<close> terminates without an
  invalid access and yields the stored cells: their positions are the positions that
  were added, in strictly ascending (row, column) order and without duplicates, and each
  cell holds the value \<open>operator()\<close> returns at its position. \<open>size()\<close> is the number of
  cells yielded modulo \<open>2^32\<close>, hence that number whenever it is below \<open>2^32\<close>. For the
  demonstration program's matrix the witness gives the order (1,1), (1,2), (2,1), (2,2),
  (3,1), (3,2).
\<close>

theorem iterate_ascending:
  assumes ctor: "SparseMatrix_ctor R C d = Inr m0" and st: "store_ok s0"
    and run: "run (m0, s0) ops = Some (Inr (m, s))"
  shows "\<exists>xs. iterate m s = Some (Inr xs) \<and>
     sorted_wrt (<) (map key xs) \<and> distinct (map key xs) \<and>
     map key xs = sorted_list_of_set (set (add_positions ops)) \<and>
     (\<forall>x\<in>set xs. lookup m s (riga x) (colonna x) = Some (Inr (dato x))) \<and>
     get_size m = of_nat (length xs) \<and>
     (length xs < 2 ^ 32 \<longrightarrow> unat (get_size m) = length xs)"
proof -
  from iterate_run[OF ctor st run] obtain xs where
    xs: "iterate m s = Some (Inr xs)" "ascending xs" "key ` set xs = set (add_positions ops)"
      "\<forall>x\<in>set xs. lookup m s (riga x) (colonna x) = Some (Inr (dato x))"
      "size_m m = of_nat (length xs)"
    by blast
  have ss: "sorted_wrt (<) (map key xs)" and dk: "distinct (map key xs)"
    using xs(2) ascending_distinct[OF xs(2)] by (simp_all add: ascending_def)
  have "sorted (map key xs)" using ss by (simp add: strict_sorted_iff)
  then have "sorted_list_of_set (set (map key xs)) = map key xs"
    using dk by (rule sorted_list_of_set.idem_if_sorted_distinct)
  then have sl: "map key xs = sorted_list_of_set (set (add_positions ops))"
    using xs(3) by simp
  have u: "length xs < 2 ^ 32 \<longrightarrow> unat (get_size m) = length xs"
    using xs(5) by (simp add: get_size_def unat_of_nat)
  show ?thesis
    using xs(1,4,5) ss dk sl u by (intro exI[of _ xs]) (simp add: get_size_def)
qed

theorem iterate_ascending_witness:
  "SparseMatrix_ctor 3 2 (999::int) = Inr demo_I \<and> store_ok (fresh_store 8 :: int store) \<and>
   (case run (demo_I, fresh_store 8) (demo_adds @ demo_adds2) of
      Some (Inr (m, s)) \<Rightarrow>
        (case iterate m s of
           Some (Inr xs) \<Rightarrow>
             map key xs = [(1, 1), (1, 2), (2, 1), (2, 2), (3, 1), (3, 2)] \<and> get_size m = 6
         | _ \<Rightarrow> False)
    | _ \<Rightarrow> False)"
proof -
  have c: "SparseMatrix_ctor 3 2 (999::int) = Inr demo_I"
    by (simp add: SparseMatrix_ctor_def demo_I_def)
  have s: "store_ok (fresh_store 8 :: int store)"
    by (rule fresh_store_ok)
  have "calls_ok 3 2 999 (demo_adds @ demo_adds2)"
    by (simp add: demo_adds_def demo_adds2_def)
  moreover have "length (demo_adds @ demo_adds2) \<le> length (free (fresh_store 8 :: int store))"
    by (simp add: demo_adds_def demo_adds2_def fresh_store_def)
  ultimately obtain m s where r: "run (demo_I, fresh_store 8) (demo_adds @ demo_adds2) = Some (Inr (m, s))"
    using run_total[OF _ ctor_inv[OF c s], of 3 2 999 "demo_adds @ demo_adds2"]
    by (auto simp: demo_I_def)
  have p: "sorted_list_of_set (set (add_positions (demo_adds @ demo_adds2)))
      = [(1, 1), (1, 2), (2, 1), (2, 2), (3, 1), (3, 2)]"
    by code_simp
  from iterate_ascending[OF c s r] obtain xs where
    xs: "iterate m s = Some (Inr xs)" "map key xs = [(1, 1), (1, 2), (2, 1), (2, 2), (3, 1), (3, 2)]"
      "get_size m = of_nat (length xs)"
    unfolding p by auto
  have "length (map key xs) = 6" unfolding xs(2) by simp
  then have "length xs = 6" by simp
  then show ?thesis using c s r xs by simp
qed

text \<open>C2 as stated fails where the counter wraps: after \<open>2^32\<close> calls of \<open>add\<close> at
  distinct positions the traversal yields \<open>2^32\<close> cells and \<open>size()\<close> is 0.\<close>

theorem size_wraps:
  "case run (wide_M, fresh_store 4294967296) wide_adds of
     Some (Inr (m, s)) \<Rightarrow>
       (case iterate m s of
          Some (Inr xs) \<Rightarrow> length xs = 4294967296 \<and> get_size m = 0
        | _ \<Rightarrow> False)
   | _ \<Rightarrow> False"
  using wide_adds_run by auto

text \<open>
  C4, as amended. On a well-formed matrix whose row and column counts are below
  \<open>INT_MAX\<close>, \<open>evaluate\<close> returns the number of positions \<open>(i, j)\<close>, \<open>1 \<le> i \<le> rows\<close> and
  \<open>1 \<le> j \<le> columns\<close>, at which the predicate holds of what \<open>operator()\<close> returns (stored
  value or default), provided that number is at most \<open>INT_MAX\<close>; a larger number
  overflows the \<open>int\<close> counter. With a predicate that is always true the number is
  rows times columns, so \<open>evaluate\<close> returns rows times columns when that is at most
  \<open>INT_MAX\<close>.
\<close>

theorem evaluate_counts:
  assumes inv: "matrix_inv M s as"
    and rm: "get_righe M < INT_MAX" and cm: "get_colonne M < INT_MAX"
  shows "evaluate M s p =
       Some (if int (count_matches M s p) \<le> INT_MAX then Inr (int (count_matches M s p))
             else Inl IntOverflow) \<and>
     int (count_matches M s (\<lambda>v. True)) = get_righe M * get_colonne M \<and>
     (get_righe M * get_colonne M \<le> INT_MAX \<longrightarrow>
        evaluate M s (\<lambda>v. True) = Some (Inr (get_righe M * get_colonne M)))"
proof -
  have pos: "0 < righe M" "0 < colonne M" using inv by (simp_all add: matrix_inv_def)
  have e: "evaluate M s q = Some (capped (int (count_matches M s q)))" for q
    using evaluate_correct[OF inv, of q] rm cm by (simp add: get_righe_def get_colonne_def)
  have t: "int (count_matches M s (\<lambda>v. True)) = get_righe M * get_colonne M"
    using count_matches_True[OF inv] pos by (simp add: get_righe_def get_colonne_def)
  show ?thesis using e[of p] e[of "\<lambda>v. True"] t by (simp add: capped_def)
qed

theorem evaluate_counts_witness:
  "matrix_inv demo_I1 demo_S1 [1] \<and> get_righe demo_I1 < INT_MAX \<and> get_colonne demo_I1 < INT_MAX \<and>
   evaluate demo_I1 demo_S1 (\<lambda>v. v mod 3 = 0) = Some (Inr 5) \<and>
   evaluate demo_I1 demo_S1 (\<lambda>v. True) = Some (Inr 6)"
proof -
  have b: "get_righe demo_I1 < INT_MAX" "get_colonne demo_I1 < INT_MAX"
    by (simp_all add: get_righe_def get_colonne_def demo_I1_def INT_MAX_def)
  have c: "count_matches demo_I1 demo_S1 (\<lambda>v. v mod 3 = 0) = 5"
    by code_simp
  have d: "get_righe demo_I1 * get_colonne demo_I1 = 6"
    by (simp add: get_righe_def get_colonne_def demo_I1_def)
  from evaluate_counts[OF demo_inv1 b, of "\<lambda>v. v mod 3 = 0"] c d
  show ?thesis using demo_inv1 b by (simp add: INT_MAX_def)
qed

text \<open>C4 as stated fails on a matrix with more than \<open>INT_MAX\<close> positions: on an empty
  46341 by 46341 matrix a predicate that is always true holds at 2147488281 positions,
  and the counter overflows.\<close>

theorem evaluate_overflows:
  "evaluate square_M (fresh_store 0) (\<lambda>v. True) = Some (Inl IntOverflow) \<and>
   get_righe square_M * get_colonne square_M = 2147488281"
proof -
  have "count_matches square_M (fresh_store 0) (\<lambda>v. True) = 2147488281"
    using count_matches_True[OF square_inv] by (simp add: square_M_def)
  then show ?thesis
    using evaluate_correct[OF square_inv, of "\<lambda>v. True"]
    by (simp add: square_M_def INT_MAX_def capped_def get_righe_def get_colonne_def)
qed

text \<open>
  C3, as amended. The source is a well-formed matrix none of whose stored values equals
  its current default value, and the store has a free node for each of its cells. Then
  the copy constructor returns a matrix with the size, the default value and the
  dimensions of the source, \<open>operator()\<close> on the copy returns at every position what it
  returns on the source, and a traversal yields the same cells. Building the copy leaves
  what \<open>operator()\<close> and a traversal return on the source as it was, and so does every
  sequence of calls that then mutates the copy through \<open>add\<close>, \<open>set_default\<close> or a mutable
  iterator.
\<close>

theorem copy_independent:
  assumes src: "matrix_inv other s src"
    and it: "iterate other s = Some (Inr xs)"
    and nodef: "\<forall>x\<in>set xs. dato x \<noteq> get_default other"
    and mem: "length xs \<le> length (free s)"
  shows "\<exists>m' s'. copy_ctor other s = Some (Inr (m', s')) \<and>
      get_size m' = get_size other \<and> get_default m' = get_default other \<and>
      get_righe m' = get_righe other \<and> get_colonne m' = get_colonne other \<and>
      (\<forall>r c. lookup m' s' r c = lookup other s r c) \<and> iterate m' s' = iterate other s \<and>
      (\<forall>r c. lookup other s' r c = lookup other s r c) \<and> iterate other s' = iterate other s \<and>
      (\<forall>ops m2 s2. run (m', s') ops = Some (Inr (m2, s2)) \<longrightarrow>
         (\<forall>r c. lookup other s2 r c = lookup other s r c) \<and> iterate other s2 = iterate other s)"
proof -
  have ch: "chain other s src" using src by (simp add: matrix_inv_def)
  have xs: "xs = elems (cells s) src" using it iterate_correct[OF ch] by simp
  have len: "length xs = length src" unfolding xs by (simp add: elems_def)
  from copy_ctor_outcome[OF src] nodef mem obtain m' s' bs' where
    r: "copy_ctor other s = Some (Inr (m', s'))" and ci: "copy_inv other s src m' s' bs' src"
    unfolding xs[symmetric] len[symmetric] get_default_def by fastforce
  note d = copy_inv_done[OF src ci]
  have ch': "chain m' s' bs'" using d(1) by (simp add: matrix_inv_def)
  have l1: "lookup m' s' r c = lookup other s r c" for r c
    using lookup_eq_elems[OF ch ch' d(4) d(7,8,9)] .
  have i1: "iterate m' s' = iterate other s"
    using iterate_correct[OF ch] iterate_correct[OF ch'] d(4) by simp
  have same: "\<forall>a\<in>set src. cells s' a = cells s a" using ci by (simp add: copy_inv_def)
  note u1 = source_untouched[OF src same]
  have ok': "store_ok s'" and chs': "chain other s' src" using d(2) by (simp_all add: matrix_inv_def)
  have mut: "(\<forall>r c. lookup other s2 r c = lookup other s r c) \<and> iterate other s2 = iterate other s"
    if run: "run (m', s') ops = Some (Inr (m2, s2))" for ops m2 s2
  proof -
    from run_inv[OF d(1) run] have
      fr: "\<forall>a. a \<notin> set bs' \<longrightarrow> a \<notin> set (free s') \<longrightarrow> cells s2 a = cells s' a" by blast
    have "\<forall>a\<in>set src. cells s2 a = cells s' a"
      using fr d(3) chain_not_free[OF ok' chs'] by blast
    from source_untouched[OF d(2) this] u1 show ?thesis by simp
  qed
  show ?thesis
    using r d(6,7,8,9) l1 i1 u1 mut
    by (intro exI[of _ m'] exI[of _ s'])
       (simp add: get_size_def get_default_def get_righe_def get_colonne_def)
qed

theorem copy_independent_witness:
  "matrix_inv demo_I1 demo_S1 [1] \<and>
   iterate demo_I1 demo_S1 = Some (Inr [\<lparr>riga = 2, colonna = 2, dato = 4\<rparr>]) \<and>
   (case copy_ctor demo_I1 demo_S1 of
      Some (Inr (m', s')) \<Rightarrow>
        get_size m' = 1 \<and> get_default m' = 999 \<and>
        lookup m' s' 2 2 = Some (Inr 4) \<and> lookup m' s' 1 1 = Some (Inr 999) \<and>
        (case run (m', s') [Add 2 2 7, SetDefault 5, Write 0 9] of
           Some (Inr (m2, s2)) \<Rightarrow>
             get_default m2 = 5 \<and> lookup m2 s2 2 2 = Some (Inr 9) \<and>
             lookup demo_I1 s2 2 2 = Some (Inr 4) \<and> lookup demo_I1 s2 1 1 = Some (Inr 999)
         | _ \<Rightarrow> False)
    | _ \<Rightarrow> False)"
proof -
  have it: "iterate demo_I1 demo_S1 = Some (Inr [\<lparr>riga = 2, colonna = 2, dato = 4\<rparr>])"
    by (simp add: iterate_def iterate_loop.simps begin_it_def end_it_def iterator_neq_def
        iterator_deref_def iterator_incr_def deref_def and_then_def demo_I1_def demo_S1_def)
  have l: "lookup demo_I1 demo_S1 2 2 = Some (Inr 4)" "lookup demo_I1 demo_S1 1 1 = Some (Inr 999)"
    by (simp_all add: lookup_def lookup_loop.simps deref_def demo_I1_def demo_S1_def)
  have g: "get_size demo_I1 = 1" "get_default demo_I1 = 999"
    by (simp_all add: get_size_def get_default_def demo_I1_def)
  have ev: "case copy_ctor demo_I1 demo_S1 of
      Some (Inr (m', s')) \<Rightarrow>
        (case run (m', s') [Add 2 2 7, SetDefault 5, Write 0 9] of
           Some (Inr (m2, s2)) \<Rightarrow>
             get_default m2 = 5 \<and> (case lookup m2 s2 2 2 of Some (Inr v) \<Rightarrow> v = 9 | _ \<Rightarrow> False)
         | _ \<Rightarrow> False)
    | _ \<Rightarrow> False"
    by code_simp
  have nd: "\<forall>x\<in>set [\<lparr>riga = 2, colonna = 2, dato = 4::int\<rparr>]. dato x \<noteq> get_default demo_I1"
    by (simp add: g)
  have mem: "length [\<lparr>riga = 2, colonna = 2, dato = 4::int\<rparr>] \<le> length (free demo_S1)"
    by (simp add: demo_S1_def)
  from copy_independent[OF demo_inv1 it nd mem] obtain m' s' where
    r: "copy_ctor demo_I1 demo_S1 = Some (Inr (m', s'))"
      "get_size m' = get_size demo_I1" "get_default m' = get_default demo_I1"
      "\<forall>r c. lookup m' s' r c = lookup demo_I1 demo_S1 r c"
      "\<forall>ops m2 s2. run (m', s') ops = Some (Inr (m2, s2)) \<longrightarrow>
         (\<forall>r c. lookup demo_I1 s2 r c = lookup demo_I1 demo_S1 r c) \<and>
         iterate demo_I1 s2 = iterate demo_I1 demo_S1"
    by blast
  have "case run (m', s') [Add 2 2 7, SetDefault 5, Write 0 9] of
           Some (Inr (m2, s2)) \<Rightarrow>
             get_default m2 = 5 \<and> (case lookup m2 s2 2 2 of Some (Inr v) \<Rightarrow> v = 9 | _ \<Rightarrow> False)
         | _ \<Rightarrow> False"
    using ev unfolding r(1) by (simp only: option.case sum.case prod.case)
  from case_state_D[OF this] obtain m2 s2 where
    r2a: "run (m', s') [Add 2 2 7, SetDefault 5, Write 0 9] = Some (Inr (m2, s2))"
      "get_default m2 = 5" "case lookup m2 s2 2 2 of Some (Inr v) \<Rightarrow> v = 9 | _ \<Rightarrow> False"
    by blast
  from case_value_D[OF r2a(3)] have r2b: "lookup m2 s2 2 2 = Some (Inr 9)" by blast
  note r2 = r2a(1,2) r2b
  have u: "lookup demo_I1 s2 2 2 = Some (Inr 4)" "lookup demo_I1 s2 1 1 = Some (Inr 999)"
    using r(5)[rule_format, OF r2(1)] l by simp_all
  have c: "lookup m' s' 2 2 = Some (Inr 4)" "lookup m' s' 1 1 = Some (Inr 999)"
    using r(4) l by simp_all
  show ?thesis
    unfolding r(1) using demo_inv1 it r(2,3) g r2 u c
    by (simp only: option.case sum.case prod.case simp_thms)
qed

text \<open>C3 as stated fails for a source that stores its current default value: after
  \<open>I.add(2, 2, 4)\<close> and \<open>I.set_default(4)\<close> the copy constructor calls \<open>add(2, 2, 4)\<close> on the
  copy, whose default value is 4, and the assertion \<open>value != D\<close> aborts.\<close>

theorem copy_aborts:
  "run (demo_I, fresh_store 3) [Add 2 2 4, SetDefault 4]
     = Some (Inr (set_default demo_I1 4, demo_S1)) \<and>
   matrix_inv (set_default demo_I1 4) demo_S1 [1] \<and>
   copy_ctor (set_default demo_I1 4) demo_S1 = Some (Inl (Fatal AssertFail))"
proof -
  have "run (demo_I, fresh_store 3) [Add 2 2 4, SetDefault 4]
     = Some (Inr (set_default demo_I1 4, demo_S1))"
    by (simp add: demo_I_def fresh_store_def add_def new_node_def set_default_def demo_I1_def
        demo_S1_def upt_rec)
  moreover have "matrix_inv (set_default demo_I1 4) demo_S1 [1]"
    using demo_inv1
    by (simp add: matrix_inv_def chain_def set_default_def
        in_range_cong[of "demo_I1\<lparr>D := 4\<rparr>" demo_I1])
  moreover have "copy_ctor (set_default demo_I1 4) demo_S1 = Some (Inl (Fatal AssertFail))"
    by (simp add: copy_ctor_def copy_loop.simps set_default_def demo_I1_def demo_S1_def
        deref_def add_def)
  ultimately show ?thesis by simp
qed




text \<open>
  C6. The converting constructor at a well-formed source, the demonstration program's
  matrix after \<open>I.add(2, 2, 4)\<close>: once the temporary copy is built, line 218 dereferences
  the default-constructed iterator \<open>Ib\<close>, which is on no node, and the dereference is an
  invalid access.
\<close>

theorem convert_null_deref:
  "matrix_inv demo_I1 demo_S1 [1] \<and>
   convert_ctor to_long demo_I1 demo_S1 (fresh_store 3) = Some (Inl (Fatal InvalidAccess))"
  using demo_inv1 convert_ctor_probe[OF demo_copy] by simp



text \<open>
  C8, as amended. The constructor aborts exactly when the row or the column count is not
  positive. On a well-formed matrix \<open>add\<close> aborts exactly when the row or the column is
  out of range or the value equals the current default value, and otherwise stores the
  cell or throws \<open>bad_alloc\<close>; \<open>operator()\<close> aborts exactly when the row or the column is
  out of range, and otherwise returns a value, which is the default value when the
  traversal of the matrix meets no cell at that position. A traversal, a write through
  an iterator that is on a stored cell, \<open>set_default\<close>, \<open>clear\<close> and every sequence of calls
  of \<open>add\<close> and \<open>set_default\<close> that respect the preconditions of \<open>add\<close> do not abort, and
  \<open>evaluate\<close> returns a count or overflows an \<open>int\<close>. The copy constructor has no
  precondition of its own and yet aborts, on the assertion of the \<open>add\<close> it calls: only when
  a stored value equals the default value, and exactly then when the store has a free
  node for each cell. The converting constructor aborts on that assertion only when the
  cast of a stored value equals the cast of the default value, and its loop (lines 222 to
  226) aborts exactly then when the store has a free node for each cell.
\<close>

theorem abort_iff_precondition:
  assumes inv: "matrix_inv m s as" and ok: "store_ok t"
  shows "(SparseMatrix_ctor R C d = Inl AssertFail \<longleftrightarrow> R \<le> 0 \<or> C \<le> 0) \<and>
     (0 < R \<and> 0 < C \<longrightarrow> (\<exists>m0. SparseMatrix_ctor R C d = Inr m0)) \<and>
     (add m s r c v = Some (Inl (Fatal AssertFail)) \<longleftrightarrow>
        r \<le> 0 \<or> righe m < r \<or> c \<le> 0 \<or> colonne m < c \<or> v = D m) \<and>
     (0 < r \<and> r \<le> righe m \<and> 0 < c \<and> c \<le> colonne m \<and> v \<noteq> D m \<longrightarrow>
        (\<exists>m' s'. add m s r c v = Some (Inr (m', s'))) \<or>
        add m s r c v = Some (Inl (BadAlloc (m, s)))) \<and>
     (lookup m s r c = Some (Inl AssertFail) \<longleftrightarrow>
        r \<le> 0 \<or> righe m < r \<or> c \<le> 0 \<or> colonne m < c) \<and>
     (0 < r \<and> r \<le> righe m \<and> 0 < c \<and> c \<le> colonne m \<longrightarrow>
        (\<exists>x. lookup m s r c = Some (Inr x)) \<and>
        ((\<forall>xs. iterate m s = Some (Inr xs) \<longrightarrow> (r, c) \<notin> key ` set xs) \<longrightarrow>
           lookup m s r c = Some (Inr (get_default m)))) \<and>
     (\<exists>xs. iterate m s = Some (Inr xs) \<and>
        (\<forall>k w. k < length xs \<longrightarrow> (\<exists>s'. apply_op (m, s) (Write k w) = Some (Inr (m, s')))) \<and>
        (\<forall>f. copy_ctor m s = Some (Inl (Fatal f)) \<longrightarrow>
           f = AssertFail \<and> (\<exists>x\<in>set xs. dato x = get_default m)) \<and>
        ((\<forall>x\<in>set xs. dato x \<noteq> get_default m) \<longrightarrow>
           (\<exists>st. copy_ctor m s = Some (Inr st)) \<or>
           (\<exists>s'. copy_ctor m s = Some (Inl (BadAlloc s')))) \<and>
        (length xs \<le> length (free s) \<longrightarrow>
           (copy_ctor m s = Some (Inl (Fatal AssertFail)) \<longleftrightarrow>
              (\<exists>x\<in>set xs. dato x = get_default m))) \<and>
        (convert_ctor conv m s t = Some (Inl (Fatal AssertFail)) \<longrightarrow>
           (\<exists>x\<in>set xs. conv (dato x) = conv (get_default m))) \<and>
        (\<forall>tmp s1. copy_ctor m s = Some (Inr (tmp, s1)) \<longrightarrow>
           (\<forall>f. convert_fill conv m tmp s1 t = Some (Inl (Fatal f)) \<longrightarrow>
              f = AssertFail \<and> (\<exists>x\<in>set xs. conv (dato x) = conv (get_default m))) \<and>
           (length xs \<le> length (free t) \<longrightarrow>
              (convert_fill conv m tmp s1 t = Some (Inl (Fatal AssertFail)) \<longleftrightarrow>
                 (\<exists>x\<in>set xs. conv (dato x) = conv (get_default m)))))) \<and>
     (\<forall>d'. apply_op (m, s) (SetDefault d') = Some (Inr (set_default m d', s))) \<and>
     (\<forall>ops. calls_ok (get_righe m) (get_colonne m) (get_default m) ops \<longrightarrow>
        (\<exists>st. run (m, s) ops = Some (Inr st)) \<or>
        (\<exists>st. run (m, s) ops = Some (Inl (BadAlloc st)))) \<and>
     (\<exists>res. evaluate m s p = Some res \<and> (res = Inl IntOverflow \<or> (\<exists>n. res = Inr n))) \<and>
     (\<exists>s'. clear m s = Some (Inr (m\<lparr>head := 0, size_m := 0\<rparr>, s')))"
proof -
  have ch: "chain m s as" and oks: "store_ok s" using inv by (simp_all add: matrix_inv_def)
  have c1: "SparseMatrix_ctor R C d = Inl AssertFail \<longleftrightarrow> R \<le> 0 \<or> C \<le> 0"
    by (auto simp: SparseMatrix_ctor_def)
  have c2: "0 < R \<and> 0 < C \<longrightarrow> (\<exists>m0. SparseMatrix_ctor R C d = Inr m0)"
    by (simp add: SparseMatrix_ctor_def)
  have a2: "0 < r \<and> r \<le> righe m \<and> 0 < c \<and> c \<le> colonne m \<and> v \<noteq> D m \<longrightarrow>
        (\<exists>m' s'. add m s r c v = Some (Inr (m', s'))) \<or>
        add m s r c v = Some (Inl (BadAlloc (m, s)))"
    using add_outcome[OF inv] by blast
  have a1: "add m s r c v = Some (Inl (Fatal AssertFail)) \<longleftrightarrow>
        r \<le> 0 \<or> righe m < r \<or> c \<le> 0 \<or> colonne m < c \<or> v = D m"
  proof
    assume f: "add m s r c v = Some (Inl (Fatal AssertFail))"
    show "r \<le> 0 \<or> righe m < r \<or> c \<le> 0 \<or> colonne m < c \<or> v = D m"
    proof (rule ccontr)
      assume "\<not> ?thesis"
      then have "0 < r \<and> r \<le> righe m \<and> 0 < c \<and> c \<le> colonne m \<and> v \<noteq> D m" by auto
      with a2 f show False by auto
    qed
  next
    assume "r \<le> 0 \<or> righe m < r \<or> c \<le> 0 \<or> colonne m < c \<or> v = D m"
    then show "add m s r c v = Some (Inl (Fatal AssertFail))"
      by (auto simp: add_def)
  qed
  have l2: "0 < r \<and> r \<le> righe m \<and> 0 < c \<and> c \<le> colonne m \<longrightarrow>
        (\<exists>x. lookup m s r c = Some (Inr x)) \<and>
        ((\<forall>xs. iterate m s = Some (Inr xs) \<longrightarrow> (r, c) \<notin> key ` set xs) \<longrightarrow>
           lookup m s r c = Some (Inr (get_default m)))"
    using lookup_correct[OF ch, of r c] iterate_correct[OF ch]
    by (auto simp: alookup_absent get_default_def)
  have l1: "lookup m s r c = Some (Inl AssertFail) \<longleftrightarrow>
        r \<le> 0 \<or> righe m < r \<or> c \<le> 0 \<or> colonne m < c"
  proof
    assume f: "lookup m s r c = Some (Inl AssertFail)"
    show "r \<le> 0 \<or> righe m < r \<or> c \<le> 0 \<or> colonne m < c"
    proof (rule ccontr)
      assume "\<not> ?thesis"
      then have "0 < r \<and> r \<le> righe m \<and> 0 < c \<and> c \<le> colonne m" by auto
      with l2 f show False by auto
    qed
  next
    assume "r \<le> 0 \<or> righe m < r \<or> c \<le> 0 \<or> colonne m < c"
    then show "lookup m s r c = Some (Inl AssertFail)"
      by (auto simp: lookup_def)
  qed
  let ?xs = "elems (cells s) as"
  have it: "iterate m s = Some (Inr ?xs)" by (rule iterate_correct[OF ch])
  have len: "length ?xs = length as" by (simp add: elems_def)
  have w: "\<forall>k w. k < length ?xs \<longrightarrow> (\<exists>s'. apply_op (m, s) (Write k w) = Some (Inr (m, s')))"
    using write_inv[OF inv] unfolding len by blast
  note cp = copy_abort_iff[OF inv]
  have cp1: "\<forall>f. copy_ctor m s = Some (Inl (Fatal f)) \<longrightarrow>
           f = AssertFail \<and> (\<exists>x\<in>set ?xs. dato x = get_default m)"
    using cp unfolding get_default_def by blast
  have cp2: "(\<forall>x\<in>set ?xs. dato x \<noteq> get_default m) \<longrightarrow>
           (\<exists>st. copy_ctor m s = Some (Inr st)) \<or>
           (\<exists>s'. copy_ctor m s = Some (Inl (BadAlloc s')))"
    using cp[of AssertFail] unfolding get_default_def by blast
  have cp3: "length ?xs \<le> length (free s) \<longrightarrow>
           (copy_ctor m s = Some (Inl (Fatal AssertFail)) \<longleftrightarrow>
              (\<exists>x\<in>set ?xs. dato x = get_default m))"
    using cp[of AssertFail] unfolding get_default_def len by blast
  have cv0: "convert_ctor conv m s t = Some (Inl (Fatal AssertFail)) \<longrightarrow>
           (\<exists>x\<in>set ?xs. conv (dato x) = conv (get_default m))"
  proof
    assume "convert_ctor conv m s t = Some (Inl (Fatal AssertFail))"
    then have "copy_ctor m s = Some (Inl (Fatal AssertFail))"
      by (auto simp: convert_ctor_def deref_default split: option.splits sum.splits error.splits)
    with cp1 obtain x where x: "x \<in> set ?xs" "dato x = get_default m" by blast
    show "\<exists>x\<in>set ?xs. conv (dato x) = conv (get_default m)"
      using x by (intro bexI[of _ x]) simp_all
  qed
  have cv: "\<forall>tmp s1. copy_ctor m s = Some (Inr (tmp, s1)) \<longrightarrow>
           (\<forall>f. convert_fill conv m tmp s1 t = Some (Inl (Fatal f)) \<longrightarrow>
              f = AssertFail \<and> (\<exists>x\<in>set ?xs. conv (dato x) = conv (get_default m))) \<and>
           (length ?xs \<le> length (free t) \<longrightarrow>
              (convert_fill conv m tmp s1 t = Some (Inl (Fatal AssertFail)) \<longleftrightarrow>
                 (\<exists>x\<in>set ?xs. conv (dato x) = conv (get_default m))))"
  proof (intro allI impI)
    fix tmp s1 assume c: "copy_ctor m s = Some (Inr (tmp, s1))"
    note cf = convert_fill_abort_iff[OF inv c ok, of conv]
    show "(\<forall>f. convert_fill conv m tmp s1 t = Some (Inl (Fatal f)) \<longrightarrow>
              f = AssertFail \<and> (\<exists>x\<in>set ?xs. conv (dato x) = conv (get_default m))) \<and>
           (length ?xs \<le> length (free t) \<longrightarrow>
              (convert_fill conv m tmp s1 t = Some (Inl (Fatal AssertFail)) \<longleftrightarrow>
                 (\<exists>x\<in>set ?xs. conv (dato x) = conv (get_default m))))"
      using cf cf[of AssertFail] unfolding get_default_def len by blast
  qed
  have sd: "\<forall>d'. apply_op (m, s) (SetDefault d') = Some (Inr (set_default m d', s))" by simp
  have rn: "\<forall>ops. calls_ok (get_righe m) (get_colonne m) (get_default m) ops \<longrightarrow>
        (\<exists>st. run (m, s) ops = Some (Inr st)) \<or>
        (\<exists>st. run (m, s) ops = Some (Inl (BadAlloc st)))"
    using run_outcome[OF _ inv]
    by (simp add: get_righe_def get_colonne_def get_default_def)
  note ev = evaluate_total[OF ch, of p]
  from clear_correct[OF oks ch]
  have cl: "\<exists>s'. clear m s = Some (Inr (m\<lparr>head := 0, size_m := 0\<rparr>, s'))" by blast
  have big: "\<exists>xs. iterate m s = Some (Inr xs) \<and>
        (\<forall>k w. k < length xs \<longrightarrow> (\<exists>s'. apply_op (m, s) (Write k w) = Some (Inr (m, s')))) \<and>
        (\<forall>f. copy_ctor m s = Some (Inl (Fatal f)) \<longrightarrow>
           f = AssertFail \<and> (\<exists>x\<in>set xs. dato x = get_default m)) \<and>
        ((\<forall>x\<in>set xs. dato x \<noteq> get_default m) \<longrightarrow>
           (\<exists>st. copy_ctor m s = Some (Inr st)) \<or>
           (\<exists>s'. copy_ctor m s = Some (Inl (BadAlloc s')))) \<and>
        (length xs \<le> length (free s) \<longrightarrow>
           (copy_ctor m s = Some (Inl (Fatal AssertFail)) \<longleftrightarrow>
              (\<exists>x\<in>set xs. dato x = get_default m))) \<and>
        (convert_ctor conv m s t = Some (Inl (Fatal AssertFail)) \<longrightarrow>
           (\<exists>x\<in>set xs. conv (dato x) = conv (get_default m))) \<and>
        (\<forall>tmp s1. copy_ctor m s = Some (Inr (tmp, s1)) \<longrightarrow>
           (\<forall>f. convert_fill conv m tmp s1 t = Some (Inl (Fatal f)) \<longrightarrow>
              f = AssertFail \<and> (\<exists>x\<in>set xs. conv (dato x) = conv (get_default m))) \<and>
           (length xs \<le> length (free t) \<longrightarrow>
              (convert_fill conv m tmp s1 t = Some (Inl (Fatal AssertFail)) \<longleftrightarrow>
                 (\<exists>x\<in>set xs. conv (dato x) = conv (get_default m)))))"
    using it w cp1 cp2 cp3 cv0 cv by (intro exI[of _ ?xs] conjI)
  show ?thesis
    using c1 c2 a1 a2 l1 l2 big sd rn ev cl by (intro conjI)
qed

theorem abort_iff_precondition_witness:
  "matrix_inv demo_I1 demo_S1 [1] \<and>
   SparseMatrix_ctor 0 2 (999::int) = Inl AssertFail \<and>
   SparseMatrix_ctor 3 2 (999::int) = Inr demo_I \<and>
   add demo_I1 demo_S1 4 1 5 = Some (Inl (Fatal AssertFail)) \<and>
   add demo_I1 demo_S1 1 2 999 = Some (Inl (Fatal AssertFail)) \<and>
   (\<exists>m' s'. add demo_I1 demo_S1 1 2 2 = Some (Inr (m', s'))) \<and>
   lookup demo_I1 demo_S1 3 3 = Some (Inl AssertFail) \<and>
   lookup demo_I1 demo_S1 2 2 = Some (Inr 4) \<and>
   lookup demo_I1 demo_S1 1 1 = Some (Inr 999) \<and>
   copy_ctor demo_I1 demo_S1 \<noteq> Some (Inl (Fatal AssertFail)) \<and>
   matrix_inv (set_default demo_I1 4) demo_S1 [1] \<and>
   copy_ctor (set_default demo_I1 4) demo_S1 = Some (Inl (Fatal AssertFail)) \<and>
   convert_fill to_bool demo_I1 demo_tmp demo_S2 (fresh_store 3) = Some (Inl (Fatal AssertFail)) \<and>
   convert_fill to_long demo_I1 demo_tmp demo_S2 (fresh_store 3) \<noteq> Some (Inl (Fatal AssertFail))"
proof -
  have okb: "store_ok (fresh_store 3 :: bool store)" by (rule fresh_store_ok)
  have okl: "store_ok (fresh_store 3 :: 64 word store)" by (rule fresh_store_ok)
  note th = abort_iff_precondition[OF demo_inv1 okb, where conv = to_bool and p = "\<lambda>x. True"]
  have r: "righe demo_I1 = 3" "colonne demo_I1 = 2" "D demo_I1 = 999" "get_default demo_I1 = 999"
    by (simp_all add: demo_I1_def get_default_def)
  have it: "iterate demo_I1 demo_S1 = Some (Inr [\<lparr>riga = 2, colonna = 2, dato = 4\<rparr>])"
    using demo_iterate1[of 999] unfolding demo_default1 .
  have "SparseMatrix_ctor 0 2 (999::int) = Inl AssertFail"
    using th[where R=0 and C=2 and d="999::int" and r=1 and c=1 and v=1] by simp
  moreover have "SparseMatrix_ctor 3 2 (999::int) = Inr demo_I"
    by (simp add: SparseMatrix_ctor_def demo_I_def)
  moreover have "add demo_I1 demo_S1 4 1 5 = Some (Inl (Fatal AssertFail))"
    using th[where R=1 and C=1 and d="0::int" and r=4 and c=1 and v=5] r by simp
  moreover have "add demo_I1 demo_S1 1 2 999 = Some (Inl (Fatal AssertFail))"
    using th[where R=1 and C=1 and d="0::int" and r=1 and c=2 and v=999] r by simp
  moreover have "\<exists>m' s'. add demo_I1 demo_S1 1 2 2 = Some (Inr (m', s'))"
  proof -
    have "add demo_I1 demo_S1 1 2 2 \<noteq> Some (Inl (BadAlloc (demo_I1, demo_S1)))"
      by (simp add: add_def new_node_def demo_S1_def demo_I1_def fatal_neq_BadAlloc)
    then show ?thesis
      using th[where R=1 and C=1 and d="0::int" and r=1 and c=2 and v=2] r by simp
  qed
  moreover have "lookup demo_I1 demo_S1 3 3 = Some (Inl AssertFail)"
    using th[where R=1 and C=1 and d="0::int" and v=1 and r=3 and c=3] r by simp
  moreover have "lookup demo_I1 demo_S1 1 1 = Some (Inr 999)"
    using th[where R=1 and C=1 and d="0::int" and v=1 and r=1 and c=1] r it by (simp add: key_def)
  moreover have "lookup demo_I1 demo_S1 2 2 = Some (Inr 4)"
    by (simp add: lookup_def lookup_loop.simps deref_def demo_I1_def demo_S1_def)
  moreover have "copy_ctor demo_I1 demo_S1 \<noteq> Some (Inl (Fatal AssertFail))"
    using th[where R=1 and C=1 and d="0::int" and v=1 and r=1 and c=1] r it
    by (simp add: demo_S1_def)
  moreover have "copy_ctor (set_default demo_I1 4) demo_S1 = Some (Inl (Fatal AssertFail))"
    using abort_iff_precondition[OF demo_inv1_default[of 4] okb, where conv = to_bool
        and p = "\<lambda>x. True" and R=1 and C=1 and d="0::int" and v=1 and r=1 and c=1]
      demo_iterate1[of 4]
    by (simp add: demo_S1_def set_default_def get_default_def)
  moreover have "convert_fill to_bool demo_I1 demo_tmp demo_S2 (fresh_store 3)
      = Some (Inl (Fatal AssertFail))"
    using th[where R=1 and C=1 and d="0::int" and v=1 and r=1 and c=1] r it demo_copy
    by (simp add: to_bool_def fresh_store_def)
  moreover have "convert_fill to_long demo_I1 demo_tmp demo_S2 (fresh_store 3)
      \<noteq> Some (Inl (Fatal AssertFail))"
    using abort_iff_precondition[OF demo_inv1 okl, where conv = to_long
        and p = "\<lambda>x. True" and R=1 and C=1 and d="0::int" and v=1 and r=1 and c=1]
      r it demo_copy
    by (simp add: to_long_def fresh_store_def)
  ultimately show ?thesis using demo_inv1 demo_inv1_default[of 4] by blast
qed

text \<open>C8 as stated fails for the copy constructor: \<open>SparseMatrix<int> I(3, 2, 999)\<close>,
  \<open>I.add(2, 2, 4)\<close> and \<open>I.set_default(4)\<close> respect every precondition, and the copy
  constructor then calls \<open>add(2, 2, 4)\<close> on a matrix whose default value is 4 and aborts.\<close>

theorem abort_without_violation:
  "SparseMatrix_ctor 3 2 (999::int) = Inr demo_I \<and>
   calls_ok 3 2 (999::int) [Add 2 2 4, SetDefault 4] \<and>
   run (demo_I, fresh_store 3) [Add 2 2 4, SetDefault 4]
     = Some (Inr (set_default demo_I1 4, demo_S1)) \<and>
   copy_ctor (set_default demo_I1 4) demo_S1 = Some (Inl (Fatal AssertFail))"
proof -
  have "run (demo_I, fresh_store 3) [Add 2 2 4, SetDefault 4]
     = Some (Inr (set_default demo_I1 4, demo_S1))"
    by (simp add: demo_I_def fresh_store_def add_def new_node_def set_default_def demo_I1_def
        demo_S1_def upt_rec)
  moreover have "copy_ctor (set_default demo_I1 4) demo_S1 = Some (Inl (Fatal AssertFail))"
    by (simp add: copy_ctor_def copy_loop.simps set_default_def demo_I1_def demo_S1_def
        deref_def add_def)
  moreover have "SparseMatrix_ctor 3 2 (999::int) = Inr demo_I"
    by (simp add: SparseMatrix_ctor_def demo_I_def)
  ultimately show ?thesis by simp
qed

end
